theory Spec2Isabelle
  imports Complex_Main "HOL-Library.Word"
begin

section \<open>Python strings and containers used by the clipper\<close>

text \<open>
  Text is a list of characters with code points below 256. \<open>whitespace\<close> lists the
  characters of that range for which Python's \<open>str.isspace\<close> holds; \<open>str.strip()\<close> and
  \<open>str.split()\<close> without arguments work on exactly these.
\<close>

definition whitespace :: "char list" where
  "whitespace = [CHR 0x09, CHR 0x0A, CHR 0x0B, CHR 0x0C, CHR 0x0D, CHR 0x1C, CHR 0x1D, CHR 0x1E,
     CHR 0x1F, CHR '' '', CHR 0x85, CHR 0xA0]"

definition is_space :: "char \<Rightarrow> bool" where
  "is_space c = (c \<in> set whitespace)"

text \<open>\<open>str.lower()\<close>: the upper-case letters below 256 are A-Z and U+00C0..U+00DE without
  the multiplication sign U+00D7; each has its lower-case partner 32 positions later.\<close>

definition lower_char :: "char \<Rightarrow> char" where
  "lower_char c =
     (let n = (of_char c :: nat) in
      if (65 \<le> n \<and> n \<le> 90) \<or> (192 \<le> n \<and> n \<le> 222 \<and> n \<noteq> 215)
      then char_of (n + 32) else c)"

definition str_lower :: "string \<Rightarrow> string" where
  "str_lower s = map lower_char s"

definition str_strip :: "string \<Rightarrow> string" where
  "str_strip s = rev (dropWhile is_space (rev (dropWhile is_space s)))"

text \<open>\<open>str.split()\<close>: skip a run of whitespace, take the maximal run of other characters as
  the next word, continue behind it. No empty word is produced.\<close>

function str_split :: "string \<Rightarrow> string list" where
  "str_split s =
     (case dropWhile is_space s of
        [] \<Rightarrow> []
      | c # cs \<Rightarrow>
          takeWhile (\<lambda>x. \<not> is_space x) (c # cs)
            # str_split (dropWhile (\<lambda>x. \<not> is_space x) cs))"
  by pat_completeness auto
termination
proof (relation "measure length", goal_cases)
  case 1
  show ?case by simp
next
  case (2 s c cs)
  have "length (dropWhile (\<lambda>x. \<not> is_space x) cs) \<le> length cs"
    by (rule length_dropWhile_le)
  moreover have "length (c # cs) \<le> length s"
    unfolding 2[symmetric] by (rule length_dropWhile_le)
  ultimately show ?case by simp
qed

declare str_split.simps [simp del]

text \<open>\<open>sep.join(words)\<close>.\<close>

fun str_join :: "string \<Rightarrow> string list \<Rightarrow> string" where
  "str_join sep [] = []"
| "str_join sep [w] = w"
| "str_join sep (w # v # ws) = w @ sep @ str_join sep (v # ws)"

text \<open>\<open>word in text\<close> on two strings: \<open>word\<close> occurs in \<open>text\<close> as a contiguous substring.\<close>

fun starts_with :: "string \<Rightarrow> string \<Rightarrow> bool" where
  "starts_with text [] = True"
| "starts_with [] (w # ws) = False"
| "starts_with (c # cs) (w # ws) = (c = w \<and> starts_with cs ws)"

fun str_in :: "string \<Rightarrow> string \<Rightarrow> bool" where
  "str_in word [] = (word = [])"
| "str_in word (c # cs) = (starts_with (c # cs) word \<or> str_in word cs)"

text \<open>
  \<open>collections.deque(maxlen=n)\<close>: the items in order, oldest first, and the bound.
  The constructor converts the bound to an \<open>ssize_t\<close> (64 bit) first and raises
  \<open>OverflowError\<close> for one outside \<open>-2^63 .. 2^63 - 1\<close>; it then raises \<open>ValueError\<close> for a
  negative one. \<open>append\<close> adds at the right end and, when the
  bound is exceeded, drops one item at the left end. A buffer handed in by the main
  application may be unbounded (\<open>maxlen = None\<close>).
\<close>

datatype py_error = ValueError | OverflowError

record 'a deque =
  maxlen :: "nat option"
  items :: "'a list"

definition deque_new :: "int \<Rightarrow> py_error + 'a deque" where
  "deque_new n =
     (if n < - (2 ^ 63) \<or> n > 2 ^ 63 - 1 then Inl OverflowError
      else if n < 0 then Inl ValueError
      else Inr \<lparr>maxlen = Some (nat n), items = []\<rparr>)"

definition deque_append :: "'a \<Rightarrow> 'a deque \<Rightarrow> 'a deque" where
  "deque_append x d =
     (let xs = items d @ [x] in
      case maxlen d of
        None \<Rightarrow> d\<lparr>items := xs\<rparr>
      | Some n \<Rightarrow> if length xs > n then d\<lparr>items := tl xs\<rparr> else d\<lparr>items := xs\<rparr>)"

section \<open>Fuzzy similarity\<close>

text \<open>
  \<open>rapidfuzz.fuzz.ratio(s1, s2)\<close> is the normalized Indel similarity scaled to 0..100:
  the Indel distance (insertions and deletions only) is
  \<open>len(s1) + len(s2) - 2 * LCS(s1, s2)\<close>, it is divided by \<open>len(s1) + len(s2)\<close>, and the
  result is \<open>(1 - normalized distance) * 100\<close>. The library computes in double precision;
  the model computes in the reals. At the threshold 40 the two agree: the normalized
  distance is then 3/5, and \<open>(1.0 - 0.6) * 100\<close> is \<open>40.0\<close> in double precision as well.
\<close>

fun lcs_length :: "string \<Rightarrow> string \<Rightarrow> nat" where
  "lcs_length [] t = 0"
| "lcs_length (x # xs) [] = 0"
| "lcs_length (x # xs) (y # ys) =
     (if x = y then Suc (lcs_length xs ys)
      else max (lcs_length xs (y # ys)) (lcs_length (x # xs) ys))"

definition indel_distance :: "string \<Rightarrow> string \<Rightarrow> nat" where
  "indel_distance s1 s2 = length s1 + length s2 - 2 * lcs_length s1 s2"

definition fuzz_ratio :: "string \<Rightarrow> string \<Rightarrow> real" where
  "fuzz_ratio s1 s2 =
     (let maximum = length s1 + length s2;
          norm_dist = (if maximum = 0 then 0 else real (indel_distance s1 s2) / real maximum)
      in (1 - norm_dist) * 100)"

section \<open>The detection loop: \<open>listen_for_clips\<close>\<close>

text \<open>
  The loop keeps two locals: \<open>recent_commands\<close>, a \<open>deque(maxlen=3)\<close>, and
  \<open>last_clip_time\<close>, initially 0. \<open>time.time()\<close> is a number of seconds; it is a real
  number here.
\<close>

record detector =
  recent_commands :: "string deque"
  last_clip_time :: real

definition initial_detector :: detector where
  "initial_detector = \<lparr>recent_commands = \<lparr>maxlen = Some 3, items = []\<rparr>, last_clip_time = 0\<rparr>"

definition clip_words :: "string list" where
  "clip_words = [''clip'', ''clips'', ''clipped'', ''click'', ''quick'', ''cli'', ''clis'']"

definition common_words :: "string list" where
  "common_words = [''the'', ''a'', ''an'', ''and'', ''or'', ''but'', ''in'', ''on'', ''at'', ''to'']"

text \<open>Lines 268-279: \<open>recognized_text\<close>, the guard on it, \<open>cleaned_text\<close> and the guard on
  that. \<open>None\<close> means the utterance is dropped before any detection.\<close>

definition recognized_text_of :: "string \<Rightarrow> string" where
  "recognized_text_of text = str_strip (str_lower text)"

definition kept_words :: "string \<Rightarrow> string list" where
  "kept_words recognized_text =
     filter (\<lambda>word. length word > 1 \<and> word \<notin> set common_words) (str_split recognized_text)"

definition cleaned_text_of :: "string \<Rightarrow> string" where
  "cleaned_text_of recognized_text = str_join '' '' (kept_words recognized_text)"

definition normalize_text :: "string \<Rightarrow> string option" where
  "normalize_text text =
     (let recognized_text = recognized_text_of text in
      if recognized_text \<noteq> [] \<and> length recognized_text > 1 then
        (let cleaned_text = cleaned_text_of recognized_text in
         if cleaned_text \<noteq> [] then Some cleaned_text else None)
      else None)"

text \<open>Line 287: \<open>any(word in cleaned_text for word in clip_words)\<close>; \<open>cleaned_text\<close> is a
  string, so \<open>in\<close> is the substring test.\<close>

definition direct_match :: "string \<Rightarrow> bool" where
  "direct_match cleaned_text = list_ex (\<lambda>word. str_in word cleaned_text) clip_words"

text \<open>Lines 291-296: the scan over the words of \<open>cleaned_text\<close> that leaves at the first
  word whose ratio exceeds 40. The result is the word and ratio it prints, if any.\<close>

fun fuzzy_scan :: "string list \<Rightarrow> (string \<times> real) option" where
  "fuzzy_scan [] = None"
| "fuzzy_scan (word # ws) =
     (let ratio = fuzz_ratio ''clip'' word in
      if ratio > 40 then Some (word, ratio) else fuzzy_scan ws)"

definition clip_detected :: "string \<Rightarrow> bool" where
  "clip_detected cleaned_text =
     (if direct_match cleaned_text then True
      else fuzzy_scan (str_split cleaned_text) \<noteq> None)"

text \<open>Detection as the specification words it, on the list of normalized tokens: some
  token equals an entry of the vocabulary, or none does and some token's ratio against
  the word clip exceeds 40.\<close>

definition spec_detected :: "string list \<Rightarrow> bool" where
  "spec_detected tokens =
     (list_ex (\<lambda>tok. tok \<in> set clip_words) tokens
      \<or> (\<not> list_ex (\<lambda>tok. tok \<in> set clip_words) tokens
          \<and> list_ex (\<lambda>tok. fuzz_ratio ''clip'' tok > 40) tokens))"

datatype outcome = Ignored | No_command | Accepted | Duplicate | Cooldown

text \<open>Lines 299-310: \<open>Accepted\<close> starts the thread that runs \<open>save_clip\<close>; the other
  outcomes only print.\<close>

definition debounce :: "string \<Rightarrow> real \<Rightarrow> detector \<Rightarrow> outcome \<times> detector" where
  "debounce cleaned_text current_time st =
     (if current_time - last_clip_time st > 2.0 then
        (if cleaned_text \<notin> set (items (recent_commands st)) then
           (Accepted, st\<lparr>last_clip_time := current_time,
                         recent_commands := deque_append cleaned_text (recent_commands st)\<rparr>)
         else (Duplicate, st))
      else (Cooldown, st))"

text \<open>One pass of the loop body for a final recognizer result with text \<open>text\<close>, read at
  time \<open>current_time\<close>.\<close>

definition process_result :: "string \<Rightarrow> real \<Rightarrow> detector \<Rightarrow> outcome \<times> detector" where
  "process_result text current_time st =
     (case normalize_text text of
        None \<Rightarrow> (Ignored, st)
      | Some cleaned_text \<Rightarrow>
          if clip_detected cleaned_text then debounce cleaned_text current_time st
          else (No_command, st))"

text \<open>The loop over the recognizer's final results, in order, from a given state: the
  outcomes and the state at the end.\<close>

fun listen :: "(string \<times> real) list \<Rightarrow> detector \<Rightarrow> outcome list \<times> detector" where
  "listen [] st = ([], st)"
| "listen ((text, t) # rest) st =
     (let (out, st') = process_result text t st;
          (outs, st'') = listen rest st'
      in (out # outs, st''))"

text \<open>The last \<open>n\<close> items of a list.\<close>

definition last_n :: "nat \<Rightarrow> 'a list \<Rightarrow> 'a list" where
  "last_n n xs = drop (length xs - n) xs"

text \<open>The cleaned texts of the accepted commands of a run, oldest first.\<close>

fun accepted_commands :: "(string \<times> real) list \<Rightarrow> detector \<Rightarrow> string list" where
  "accepted_commands [] st = []"
| "accepted_commands ((text, t) # rest) st =
     (let (out, st') = process_result text t st in
      (case normalize_text text of
         Some cleaned_text \<Rightarrow> if out = Accepted then [cleaned_text] else []
       | None \<Rightarrow> [])
        @ accepted_commands rest st')"

text \<open>The shape of \<open>recent_commands\<close> that the loop keeps: bound 3, at most 3 items.\<close>

definition recent_commands_ok :: "detector \<Rightarrow> bool" where
  "recent_commands_ok st = (maxlen (recent_commands st) = Some 3 \<and> length (items (recent_commands st)) \<le> 3)"

section \<open>The clipper object\<close>

type_synonym bytes = "8 word list"

record clipper =
  buffer_duration :: int
  output_folder :: string
  format :: string
  is_listening :: bool
  frame_buffer :: "bytes deque option"
  audio_buffer :: "bytes deque option"
  clip_counter :: int

text \<open>\<open>set_buffers\<close> (lines 104-107) and \<open>set_file_format\<close> (lines 115-117).\<close>

definition set_buffers :: "bytes deque option \<Rightarrow> bytes deque option \<Rightarrow> clipper \<Rightarrow> clipper" where
  "set_buffers fb ab self = self\<lparr>frame_buffer := fb, audio_buffer := ab\<rparr>"

definition set_file_format :: "string \<Rightarrow> clipper \<Rightarrow> clipper" where
  "set_file_format fmt self = self\<lparr>format := str_lower fmt\<rparr>"

text \<open>
  \<open>set_buffer_duration\<close> (lines 119-126). Both \<open>hasattr\<close> tests hold, since \<open>__init__\<close>
  sets both attributes. The assignments happen one after the other, so an error raised
  by the constructor of a deque leaves the earlier assignments in place: the result is
  the error, if any, and the object as it then is.
\<close>

definition set_buffer_duration :: "int \<Rightarrow> clipper \<Rightarrow> py_error option \<times> clipper" where
  "set_buffer_duration duration self =
     (let self1 = self\<lparr>buffer_duration := duration\<rparr> in
      case deque_new (duration * 30) of
        Inl err \<Rightarrow> (Some err, self1)
      | Inr fb \<Rightarrow>
          (let self2 = self1\<lparr>frame_buffer := Some fb\<rparr> in
           case deque_new (duration * 44100 * 2) of
             Inl err \<Rightarrow> (Some err, self2)
           | Inr ab \<Rightarrow> (None, self2\<lparr>audio_buffer := Some ab\<rparr>)))"

text \<open>The capture source pushes with \<open>deque.append\<close>; a run of pushes, oldest first.\<close>

definition pushes :: "'a list \<Rightarrow> 'a deque \<Rightarrow> 'a deque" where
  "pushes xs d = fold deque_append xs d"

section \<open>Saving a clip: \<open>save_clip\<close>\<close>

text \<open>
  The files of the output folder are a map from paths to contents. What the save does
  to the world is recorded as a list of events, in program order: taking and releasing
  \<open>self.lock\<close>, printing, opening and writing files, copying a buffer, running the
  encoder, removing files.
\<close>

type_synonym path = string

datatype file_content = Raw_file bytes | Wave_file nat nat nat bytes | Partial_file | Encoded_file bytes

type_synonym filesystem = "path \<rightharpoonup> file_content"

datatype exn = CalledProcessError string | OtherError

datatype message =
    No_frames_to_save
  | Saving_clip_to path
  | Processing_clip
  | Clip_saved path
  | Error_saving_clip exn
  | FFmpeg_error string

datatype event =
    Lock_acquire
  | Lock_release
  | Print message
  | Open_file path
  | Copy_frame_buffer
  | Copy_audio_buffer
  | Write_file path
  | Run "string list"
  | Remove_file path
  | Remove_file_failed path

text \<open>
  What the save cannot decide by itself: the clock (\<open>time.strftime\<close>), the platform, whether
  writing each temporary file works, fails when the file is opened, or fails after it was
  created, the encoder, and whether \<open>os.remove\<close> works on each temporary file or raises.
  The encoder is any function from the command line and the
  files to an exception, if it raises one, and the files it leaves; \<open>subprocess.run\<close> with
  \<open>check=True\<close> raises \<open>CalledProcessError\<close>, carrying the captured stderr, on a non-zero
  exit status.
\<close>

datatype platform = Darwin | Other_system

datatype io_result = Io_ok | Io_open_fails | Io_write_fails

datatype remove_result = Remove_ok | Remove_fails

record env =
  timestamp :: string
  system :: platform
  video_io :: io_result
  audio_io :: io_result
  encoder :: "string list \<Rightarrow> filesystem \<Rightarrow> exn option \<times> filesystem"
  video_remove :: remove_result
  audio_remove :: remove_result

text \<open>\<open>str\<close> of an integer, as the f-string formats the counter.\<close>

fun str_of_nat :: "nat \<Rightarrow> string" where
  "str_of_nat n =
     (if n < 10 then [char_of (48 + n)]
      else str_of_nat (n div 10) @ [char_of (48 + n mod 10)])"

declare str_of_nat.simps [simp del]

definition str_of_int :: "int \<Rightarrow> string" where
  "str_of_int i = (if i < 0 then ''-'' @ str_of_nat (nat (- i)) else str_of_nat (nat i))"

text \<open>\<open>os.path.join\<close> of a folder and a relative name (POSIX).\<close>

definition path_join :: "path \<Rightarrow> string \<Rightarrow> path" where
  "path_join folder name =
     (if folder = [] \<or> last folder = CHR ''/'' then folder @ name else folder @ ''/'' @ name)"

text \<open>\<open>not buf or len(buf) == 0\<close>: \<open>None\<close> and an empty deque are both false.\<close>

definition buffer_is_empty :: "'a deque option \<Rightarrow> bool" where
  "buffer_is_empty buf = (case buf of None \<Rightarrow> True | Some d \<Rightarrow> items d = [])"

definition buffer_items :: "'a deque option \<Rightarrow> 'a list" where
  "buffer_items buf = (case buf of None \<Rightarrow> [] | Some d \<Rightarrow> items d)"

text \<open>Opening a file for writing and writing \<open>content\<close> to it; \<open>copy\<close> is the event of
  the buffer copy made between the two (lines 150-153 and 157-161).\<close>

definition write_file ::
  "io_result \<Rightarrow> path \<Rightarrow> event \<Rightarrow> file_content \<Rightarrow> filesystem \<Rightarrow> exn option \<times> filesystem \<times> event list" where
  "write_file r p copy content fs =
     (case r of
        Io_open_fails \<Rightarrow> (Some OtherError, fs, [])
      | Io_write_fails \<Rightarrow> (Some OtherError, fs(p \<mapsto> Partial_file), [Open_file p, copy])
      | Io_ok \<Rightarrow> (None, fs(p \<mapsto> content), [Open_file p, copy, Write_file p]))"

text \<open>The encoder's command line (lines 164-222).\<close>

definition ffmpeg_command :: "platform \<Rightarrow> path \<Rightarrow> path \<Rightarrow> bool \<Rightarrow> path \<Rightarrow> string list" where
  "ffmpeg_command sys temp_video temp_audio audio_exists output_filename =
     [''ffmpeg'', ''-f'', ''rawvideo'', ''-vcodec'', ''rawvideo'', ''-s'', ''1920x1080'',
      ''-pix_fmt'', ''rgb24'', ''-framerate'', ''30'', ''-i'', temp_video]
     @ (if audio_exists then [''-i'', temp_audio, ''-c:a'', ''aac'', ''-b:a'', ''192k''] else [])
     @ (case sys of
          Darwin \<Rightarrow>
            [''-c:v'', ''h264'', ''-preset'', ''ultrafast'', ''-pix_fmt'', ''yuv420p'',
             ''-profile:v'', ''high'', ''-r'', ''30'', ''-movflags'', ''+faststart'',
             ''-strict'', ''experimental'', ''-y'', output_filename]
        | Other_system \<Rightarrow>
            [''-c:v'', ''libx264'', ''-preset'', ''ultrafast'', ''-pix_fmt'', ''yuv420p'',
             ''-profile:v'', ''baseline'', ''-level'', ''3.0'', ''-r'', ''30'', ''-y'',
             output_filename])"

text \<open>The \<open>try\<close> block (lines 149-226): the exception it ends with, if any, the files and
  the events.\<close>

definition try_block ::
  "env \<Rightarrow> clipper \<Rightarrow> path \<Rightarrow> path \<Rightarrow> path \<Rightarrow> filesystem \<Rightarrow> exn option \<times> filesystem \<times> event list" where
  "try_block e self output_filename temp_video temp_audio fs =
     (case write_file (video_io e) temp_video Copy_frame_buffer
             (Raw_file (concat (buffer_items (frame_buffer self)))) fs of
        (Some x, fs1, ev1) \<Rightarrow> (Some x, fs1, ev1)
      | (None, fs1, ev1) \<Rightarrow>
          (case (if \<not> buffer_is_empty (audio_buffer self)
                 then write_file (audio_io e) temp_audio Copy_audio_buffer
                        (Wave_file 2 2 44100 (concat (buffer_items (audio_buffer self)))) fs1
                 else (None, fs1, [])) of
             (Some x, fs2, ev2) \<Rightarrow> (Some x, fs2, ev1 @ ev2)
           | (None, fs2, ev2) \<Rightarrow>
               (let command = ffmpeg_command (system e) temp_video temp_audio
                                (fs2 temp_audio \<noteq> None) output_filename
                in case encoder e command fs2 of
                     (Some x, fs3) \<Rightarrow>
                       (Some x, fs3, ev1 @ ev2 @ [Print Processing_clip, Run command])
                   | (None, fs3) \<Rightarrow>
                       (None, fs3, ev1 @ ev2 @ [Print Processing_clip, Run command,
                                                  Print (Clip_saved output_filename)]))))"

text \<open>The two \<open>except\<close> clauses (lines 228-233): the exception that is still raised after
  them, and what they print.\<close>

fun except_clauses :: "exn option \<Rightarrow> exn option \<times> event list" where
  "except_clauses None = (None, [])"
| "except_clauses (Some (CalledProcessError stderr)) =
     (None, Print (Error_saving_clip (CalledProcessError stderr))
              # (if stderr \<noteq> [] then [Print (FFmpeg_error stderr)] else []))"
| "except_clauses (Some OtherError) = (None, [Print (Error_saving_clip OtherError)])"

text \<open>
  The \<open>finally\<close> clause (lines 234-239). \<open>os.remove\<close> is called on a path that exists and
  has no handler around it: when it raises, the file stays, the rest of the clause is
  skipped and the exception is the result.
\<close>

definition remove_if_exists ::
  "remove_result \<Rightarrow> path \<Rightarrow> filesystem \<Rightarrow> exn option \<times> filesystem \<times> event list" where
  "remove_if_exists r p fs =
     (if fs p \<noteq> None then
        (case r of
           Remove_ok \<Rightarrow> (None, fs(p := None), [Remove_file p])
         | Remove_fails \<Rightarrow> (Some OtherError, fs, [Remove_file_failed p]))
      else (None, fs, []))"

definition finally_clause ::
  "env \<Rightarrow> path \<Rightarrow> path \<Rightarrow> filesystem \<Rightarrow> exn option \<times> filesystem \<times> event list" where
  "finally_clause e temp_video temp_audio fs =
     (case remove_if_exists (video_remove e) temp_video fs of
        (Some x, fs1, ev1) \<Rightarrow> (Some x, fs1, ev1)
      | (None, fs1, ev1) \<Rightarrow>
          (case remove_if_exists (audio_remove e) temp_audio fs1 of
             (failed, fs2, ev2) \<Rightarrow> (failed, fs2, ev1 @ ev2)))"

definition output_filename_of :: "env \<Rightarrow> clipper \<Rightarrow> path" where
  "output_filename_of e self =
     path_join (output_folder self)
       (''clip_'' @ timestamp e @ ''_'' @ str_of_int (clip_counter self) @ ''.''
          @ str_lower (format self))"

definition temp_video_of :: "env \<Rightarrow> clipper \<Rightarrow> path" where
  "temp_video_of e self = path_join (output_folder self) (''temp_video_'' @ timestamp e @ ''.raw'')"

definition temp_audio_of :: "env \<Rightarrow> clipper \<Rightarrow> path" where
  "temp_audio_of e self = path_join (output_folder self) (''temp_audio_'' @ timestamp e @ ''.wav'')"

text \<open>\<open>save_clip\<close> (lines 128-239): the exception it raises, if any, the object, the files
  and the events. Everything happens inside \<open>with self.lock\<close>, which releases the lock
  also when an exception leaves the body. An exception raised in the \<open>finally\<close> clause
  is the one that leaves \<open>save_clip\<close>.\<close>

definition save_clip ::
  "env \<Rightarrow> clipper \<Rightarrow> filesystem \<Rightarrow> exn option \<times> clipper \<times> filesystem \<times> event list" where
  "save_clip e self fs =
     (if buffer_is_empty (frame_buffer self) then
        (None, self, fs, [Lock_acquire, Print No_frames_to_save, Lock_release])
      else
        (let self' = self\<lparr>clip_counter := clip_counter self + 1\<rparr>;
             output_filename = output_filename_of e self';
             temp_video = temp_video_of e self';
             temp_audio = temp_audio_of e self';
             (raised, fs1, ev1) = try_block e self' output_filename temp_video temp_audio fs;
             (pending, ev2) = except_clauses raised;
             (failed, fs2, ev3) = finally_clause e temp_video temp_audio fs1
         in ((case failed of Some x \<Rightarrow> Some x | None \<Rightarrow> pending), self', fs2,
             [Lock_acquire, Print (Saving_clip_to output_filename)] @ ev1 @ ev2 @ ev3
               @ [Lock_release])))"


definition clipper_of :: "exn option \<times> clipper \<times> filesystem \<times> event list \<Rightarrow> clipper" where
  "clipper_of r = fst (snd r)"

definition files_of :: "exn option \<times> clipper \<times> filesystem \<times> event list \<Rightarrow> filesystem" where
  "files_of r = fst (snd (snd r))"

definition events_of :: "exn option \<times> clipper \<times> filesystem \<times> event list \<Rightarrow> event list" where
  "events_of r = snd (snd (snd r))"

text \<open>The events of a trace that happen while the lock is held; the flag says whether it
  is held at the start.\<close>

fun held_events :: "bool \<Rightarrow> event list \<Rightarrow> event list" where
  "held_events h [] = []"
| "held_events h (Lock_acquire # es) = held_events True es"
| "held_events h (Lock_release # es) = held_events False es"
| "held_events h (e # es) = (if h then e # held_events h es else held_events h es)"

definition is_copy_step :: "event \<Rightarrow> bool" where
  "is_copy_step ev = (ev = Copy_frame_buffer \<or> ev = Copy_audio_buffer)"

definition is_run :: "event \<Rightarrow> bool" where
  "is_run ev = (case ev of Run command \<Rightarrow> True | _ \<Rightarrow> False)"

text \<open>
  Several threads run at once: a schedule is the list of their events in the order in
  which they happen, each with the number of its thread. \<open>lock_ok owner\<close> says that the
  schedule respects the lock when \<open>owner\<close> holds it at the start: it is taken only when
  free, and released only by the thread that holds it.
\<close>

fun lock_ok :: "nat option \<Rightarrow> (nat \<times> event) list \<Rightarrow> bool" where
  "lock_ok owner [] = True"
| "lock_ok owner ((i, Lock_acquire) # es) = (owner = None \<and> lock_ok (Some i) es)"
| "lock_ok owner ((i, Lock_release) # es) = (owner = Some i \<and> lock_ok None es)"
| "lock_ok owner ((i, e) # es) = lock_ok owner es"

definition events_of_thread :: "nat \<Rightarrow> (nat \<times> event) list \<Rightarrow> event list" where
  "events_of_thread i sched = map snd (filter (\<lambda>p. fst p = i) sched)"

section \<open>Concrete inputs\<close>

text \<open>A clipper holding one three-byte frame and no audio, an encoder that writes the
  output file, an encoder that exits with a non-zero status, an environment for
  each, and one in which the encoder works and the temporary video file cannot be
  removed.\<close>

definition example_clipper :: clipper where
  "example_clipper =
     \<lparr>buffer_duration = 30, output_folder = ''clips'', format = ''mp4'', is_listening = False,
      frame_buffer = Some \<lparr>maxlen = Some 900, items = [[1, 2, 3]]\<rparr>,
      audio_buffer = None, clip_counter = 0\<rparr>"

definition working_encoder :: "string list \<Rightarrow> filesystem \<Rightarrow> exn option \<times> filesystem" where
  "working_encoder command fs = (None, fs(last command \<mapsto> Encoded_file []))"

definition failing_encoder :: "string list \<Rightarrow> filesystem \<Rightarrow> exn option \<times> filesystem" where
  "failing_encoder command fs = (Some (CalledProcessError ''Invalid data''), fs)"

definition working_env :: env where
  "working_env = \<lparr>timestamp = ''20240101_120000'', system = Other_system,
                   video_io = Io_ok, audio_io = Io_ok, encoder = working_encoder,
                   video_remove = Remove_ok, audio_remove = Remove_ok\<rparr>"

definition failing_env :: env where
  "failing_env = \<lparr>timestamp = ''20240101_120000'', system = Other_system,
                   video_io = Io_ok, audio_io = Io_ok, encoder = failing_encoder,
                   video_remove = Remove_ok, audio_remove = Remove_ok\<rparr>"


section \<open>Facts about splitting and joining\<close>

lemma str_split_Nil: "str_split [] = []"
  by (simp add: str_split.simps)

lemma str_split_Cons:
  "str_split (c # cs) =
     (if is_space c then str_split cs
      else takeWhile (\<lambda>x. \<not> is_space x) (c # cs) # str_split (dropWhile (\<lambda>x. \<not> is_space x) cs))"
proof (cases "is_space c")
  case True
  have "str_split (c # cs) = str_split (dropWhile is_space cs)"
    using True by (subst str_split.simps, subst (2) str_split.simps) simp
  also have "\<dots> = str_split cs"
    by (subst str_split.simps, subst (2) str_split.simps) simp
  finally show ?thesis using True by simp
next
  case False
  then show ?thesis by (subst str_split.simps) simp
qed

lemma str_split_dropWhile: "str_split (dropWhile is_space s) = str_split s"
  by (subst str_split.simps, subst (2) str_split.simps) simp

lemma str_split_none: "dropWhile is_space s = [] \<Longrightarrow> str_split s = []"
  by (subst str_split.simps) (simp only: list.case)

lemma str_split_some:
  "dropWhile is_space s = c # cs \<Longrightarrow>
   str_split s = takeWhile (\<lambda>x. \<not> is_space x) (c # cs) # str_split (dropWhile (\<lambda>x. \<not> is_space x) cs)"
  by (subst str_split.simps) (simp only: list.case)

lemma str_split_spaces: "\<forall>c\<in>set s. is_space c \<Longrightarrow> str_split s = []"
  by (induction s) (simp_all add: str_split_Nil str_split_Cons)

lemma str_split_append_spaces:
  "\<forall>c\<in>set t. is_space c \<Longrightarrow> str_split (s @ t) = str_split s"
proof (induction s rule: str_split.induct)
  case (1 s)
  show ?case
  proof (cases "dropWhile is_space s")
    case Nil
    then have "\<forall>c\<in>set (s @ t). is_space c"
      using 1(2) by (auto simp: dropWhile_eq_Nil_conv)
    then have "str_split (s @ t) = []" by (rule str_split_spaces)
    moreover have "str_split s = []"
      using Nil by (rule str_split_none)
    ultimately show ?thesis by simp
  next
    case (Cons c cs)
    then have ns: "\<not> is_space c"
      by (metis hd_dropWhile list.sel(1) list.distinct(1))
    have dw: "dropWhile is_space (s @ t) = (c # cs) @ t"
      using Cons by (metis dropWhile_append1 dropWhile_eq_Nil_conv list.distinct(1) dropWhile_append)
    show ?thesis
    proof (cases "\<exists>x\<in>set cs. is_space x")
      case True
      then have tw: "takeWhile (\<lambda>x. \<not> is_space x) (c # cs @ t) = takeWhile (\<lambda>x. \<not> is_space x) (c # cs)"
        using ns by (auto simp: takeWhile_append1)
      have dr: "dropWhile (\<lambda>x. \<not> is_space x) (cs @ t) = dropWhile (\<lambda>x. \<not> is_space x) cs @ t"
        using True by (auto simp: dropWhile_append1)
      have ih: "str_split (dropWhile (\<lambda>x. \<not> is_space x) cs @ t) = str_split (dropWhile (\<lambda>x. \<not> is_space x) cs)"
        using 1(1)[OF Cons] 1(2) by simp
      have "str_split (s @ t) = takeWhile (\<lambda>x. \<not> is_space x) (c # cs) # str_split (dropWhile (\<lambda>x. \<not> is_space x) cs)"
        using str_split_some[of "s @ t" c "cs @ t"] dw tw dr ih by simp
      also have "\<dots> = str_split s"
        by (rule str_split_some[OF Cons, symmetric])
      finally show ?thesis .
    next
      case False
      then have all: "\<forall>x\<in>set cs. \<not> is_space x" by simp
      have tw: "takeWhile (\<lambda>x. \<not> is_space x) (c # cs @ t) = c # cs"
      proof -
        have "takeWhile (\<lambda>x. \<not> is_space x) ((c # cs) @ t) = (c # cs) @ takeWhile (\<lambda>x. \<not> is_space x) t"
          using all ns by (intro takeWhile_append2) auto
        moreover have "takeWhile (\<lambda>x. \<not> is_space x) t = []"
          using 1(2) by (cases t) auto
        ultimately show ?thesis by simp
      qed
      have dr: "dropWhile (\<lambda>x. \<not> is_space x) (cs @ t) = t"
      proof -
        have "dropWhile (\<lambda>x. \<not> is_space x) (cs @ t) = dropWhile (\<lambda>x. \<not> is_space x) t"
          using all by (intro dropWhile_append2) auto
        moreover have "dropWhile (\<lambda>x. \<not> is_space x) t = t"
          using 1(2) by (cases t) auto
        ultimately show ?thesis by simp
      qed
      have dr2: "dropWhile (\<lambda>x. \<not> is_space x) cs = []" using all by simp
      have tw2: "takeWhile (\<lambda>x. \<not> is_space x) cs = cs" using all by simp
      have "str_split (s @ t) = [c # cs]"
        using str_split_some[of "s @ t" c "cs @ t"] dw tw dr str_split_spaces[OF 1(2)] by simp
      also have "\<dots> = str_split s"
        using str_split_some[OF Cons] ns dr2 tw2 by (simp add: str_split_Nil)
      finally show ?thesis .
    qed
  qed
qed

lemma str_split_strip: "str_split (str_strip s) = str_split s"
proof -
  let ?u = "dropWhile is_space s"
  have "?u = rev (dropWhile is_space (rev ?u)) @ rev (takeWhile is_space (rev ?u))"
    by (metis rev_append rev_rev_ident takeWhile_dropWhile_id)
  moreover have "\<forall>c\<in>set (rev (takeWhile is_space (rev ?u))). is_space c"
    by (auto dest: set_takeWhileD)
  ultimately have "str_split ?u = str_split (rev (dropWhile is_space (rev ?u)))"
    by (metis str_split_append_spaces)
  then show ?thesis by (simp add: str_strip_def str_split_dropWhile)
qed

lemma str_split_words:
  "w \<in> set (str_split s) \<Longrightarrow> w \<noteq> [] \<and> (\<forall>c\<in>set w. \<not> is_space c) \<and> set w \<subseteq> set s"
proof (induction s arbitrary: w rule: str_split.induct)
  case (1 s)
  show ?case
  proof (cases "dropWhile is_space s")
    case Nil
    then have "str_split s = []" by (rule str_split_none)
    with 1(2) show ?thesis by simp
  next
    case (Cons c cs)
    then have ns: "\<not> is_space c"
      by (metis hd_dropWhile list.sel(1) list.distinct(1))
    have sub: "set (c # cs) \<subseteq> set s"
      unfolding Cons[symmetric] by (auto dest: set_dropWhileD)
    have eq: "str_split s = takeWhile (\<lambda>x. \<not> is_space x) (c # cs) # str_split (dropWhile (\<lambda>x. \<not> is_space x) cs)"
      by (rule str_split_some[OF Cons])
    from 1(2) eq consider "w = takeWhile (\<lambda>x. \<not> is_space x) (c # cs)"
      | "w \<in> set (str_split (dropWhile (\<lambda>x. \<not> is_space x) cs))" by auto
    then show ?thesis
    proof cases
      case 1
      then show ?thesis using ns sub by (auto dest: set_takeWhileD)
    next
      case 2
      from "1.IH"[OF Cons 2] sub show ?thesis
        by (auto dest: set_dropWhileD)
    qed
  qed
qed

lemma str_split_join:
  "\<forall>w\<in>set ws. w \<noteq> [] \<and> (\<forall>c\<in>set w. \<not> is_space c) \<Longrightarrow> str_split (str_join '' '' ws) = ws"
proof (induction "'' ''" ws rule: str_join.induct)
  case 1
  show ?case by (simp add: str_split_Nil)
next
  case (2 w)
  then obtain c cs where w: "w = c # cs" by (cases w) auto
  with 2 have ns: "\<not> is_space c" "\<forall>x\<in>set cs. \<not> is_space x" by auto
  then have dz: "dropWhile (\<lambda>x. \<not> is_space x) cs = []" by simp
  show ?case using ns by (simp add: w str_split_Cons str_split_Nil dz)
next
  case (3 w v ws)
  then obtain c cs where w: "w = c # cs" by (cases w) auto
  with 3 have ns: "\<not> is_space c" "\<forall>x\<in>set cs. \<not> is_space x" by auto
  have sp: "is_space CHR '' ''" by (simp add: is_space_def whitespace_def)
  have tw: "takeWhile (\<lambda>x. \<not> is_space x) (cs @ CHR '' '' # str_join '' '' (v # ws)) = cs"
    using ns sp by (simp add: takeWhile_append2 del: str_join.simps)
  have dr: "dropWhile (\<lambda>x. \<not> is_space x) (cs @ CHR '' '' # str_join '' '' (v # ws)) = CHR '' '' # str_join '' '' (v # ws)"
    using ns sp by (simp add: dropWhile_append2 del: str_join.simps)
  have ih: "str_split (str_join '' '' (v # ws)) = v # ws" using 3 by simp
  have sp2: "str_split (CHR '' '' # str_join '' '' (v # ws)) = v # ws"
    by (subst str_split_Cons) (simp only: sp if_True ih)
  have "str_split (c # (cs @ CHR '' '' # str_join '' '' (v # ws))) =
          takeWhile (\<lambda>x. \<not> is_space x) (c # (cs @ CHR '' '' # str_join '' '' (v # ws)))
            # str_split (dropWhile (\<lambda>x. \<not> is_space x) (cs @ CHR '' '' # str_join '' '' (v # ws)))"
    using ns(1) by (subst str_split_Cons) (simp only: if_False)
  also have "\<dots> = (c # cs) # v # ws"
    using ns(1) by (simp add: dr sp2 tw del: str_join.simps)
  finally show ?case by (simp add: w)
qed

section \<open>Facts about the deque and the detection loop\<close>

lemma last_n_last_n: "last_n n (last_n n xs @ ys) = last_n n (xs @ ys)"
proof (cases "length xs \<le> n")
  case True
  then show ?thesis by (simp add: last_n_def)
next
  case False
  define k where "k = length xs - n"
  have kn: "length xs = k + n" using False by (simp add: k_def)
  have l: "length (drop k xs) = n" using kn by simp
  have "last_n n (last_n n xs @ ys) = drop (length ys) (drop k xs @ ys)"
    unfolding last_n_def k_def[symmetric] using l by simp
  also have "\<dots> = drop (length ys) (drop k (xs @ ys))"
    using kn by simp
  also have "\<dots> = drop (length ys + k) (xs @ ys)"
    by (simp only: drop_drop)
  also have "length ys + k = length (xs @ ys) - n"
    using kn by simp
  finally show ?thesis by (simp only: last_n_def)
qed

lemma deque_append_items:
  assumes "maxlen d = Some n" and "length (items d) \<le> n"
  shows "items (deque_append x d) = last_n n (items d @ [x])"
    and "maxlen (deque_append x d) = Some n"
proof -
  show "maxlen (deque_append x d) = Some n"
    using assms by (simp add: deque_append_def Let_def)
  show "items (deque_append x d) = last_n n (items d @ [x])"
  proof (cases "length (items d) < n")
    case True
    then show ?thesis using assms by (simp add: deque_append_def Let_def last_n_def)
  next
    case False
    with assms have e: "length (items d) = n" by simp
    have "items (deque_append x d) = tl (items d @ [x])"
      using assms e by (simp add: deque_append_def Let_def)
    also have "\<dots> = drop 1 (items d @ [x])"
      by (simp only: drop_Suc drop_0 One_nat_def)
    also have "1 = length (items d @ [x]) - n"
      using e by simp
    finally show ?thesis by (simp only: last_n_def)
  qed
qed

lemma length_last_n: "length (last_n n xs) \<le> n"
  by (simp add: last_n_def)

lemma process_result_cases:
  assumes "process_result text t st = (out, st')"
  shows "(out = Accepted \<and> (\<exists>u. normalize_text text = Some u \<and> clip_detected u
        \<and> t - last_clip_time st > 2 \<and> u \<notin> set (items (recent_commands st))
        \<and> st' = st\<lparr>last_clip_time := t, recent_commands := deque_append u (recent_commands st)\<rparr>))
   \<or> (out \<noteq> Accepted \<and> st' = st)"
proof (cases "normalize_text text")
  case None
  with assms show ?thesis by (simp add: process_result_def)
next
  case (Some u)
  show ?thesis
  proof (cases "clip_detected u")
    case False
    with Some assms show ?thesis by (simp add: process_result_def)
  next
    case True
    with Some assms have d: "debounce u t st = (out, st')" by (simp add: process_result_def)
    then show ?thesis using Some True
      by (simp add: debounce_def split: if_splits) 
  qed
qed

lemma process_result_detected:
  "normalize_text text = Some u \<Longrightarrow> clip_detected u \<Longrightarrow>
   process_result text t st = debounce u t st"
  by (simp add: process_result_def)

lemma process_result_recent_commands_ok:
  assumes "recent_commands_ok st" and "process_result text t st = (out, st')"
  shows "recent_commands_ok st'"
proof -
  from process_result_cases[OF assms(2)] show ?thesis
  proof
    assume "out \<noteq> Accepted \<and> st' = st"
    with assms(1) show ?thesis by simp
  next
    assume "out = Accepted \<and> (\<exists>u. normalize_text text = Some u \<and> clip_detected u
        \<and> t - last_clip_time st > 2 \<and> u \<notin> set (items (recent_commands st))
        \<and> st' = st\<lparr>last_clip_time := t, recent_commands := deque_append u (recent_commands st)\<rparr>)"
    then obtain u where
      st': "st' = st\<lparr>last_clip_time := t, recent_commands := deque_append u (recent_commands st)\<rparr>"
      by blast
    from assms(1) have m: "maxlen (recent_commands st) = Some 3"
      and l: "length (items (recent_commands st)) \<le> 3" by (simp_all add: recent_commands_ok_def)
    show ?thesis
      unfolding recent_commands_ok_def st'
      using deque_append_items[OF m l, of u] length_last_n[of 3 "items (recent_commands st) @ [u]"]
      by simp
  qed
qed

lemma listen_Cons:
  "listen ((text, t) # rest) st =
     (fst (process_result text t st) # fst (listen rest (snd (process_result text t st))),
      snd (listen rest (snd (process_result text t st))))"
  by (simp add: case_prod_unfold Let_def)

lemma accepted_commands_Cons:
  "accepted_commands ((text, t) # rest) st =
     (case normalize_text text of
        Some cleaned_text \<Rightarrow> if fst (process_result text t st) = Accepted then [cleaned_text] else []
      | None \<Rightarrow> [])
     @ accepted_commands rest (snd (process_result text t st))"
  by (simp add: case_prod_unfold Let_def)

lemma recent_commands_listen:
  "recent_commands_ok st \<Longrightarrow>
   recent_commands_ok (snd (listen evs st)) \<and>
   items (recent_commands (snd (listen evs st)))
     = last_n 3 (items (recent_commands st) @ accepted_commands evs st)"
proof (induction evs arbitrary: st)
  case Nil
  then show ?case by (simp add: last_n_def recent_commands_ok_def)
next
  case (Cons ev evs)
  obtain tx t where ev: "ev = (tx, t)" by (cases ev)
  obtain out st' where p: "process_result tx t st = (out, st')"
    by (cases "process_result tx t st")
  have g: "recent_commands_ok st'" using Cons.prems p by (rule process_result_recent_commands_ok)
  note ih = Cons.IH[OF g]
  have l: "snd (listen (ev # evs) st) = snd (listen evs st')"
    unfolding ev listen_Cons p by simp
  from process_result_cases[OF p] show ?case
  proof
    assume a: "out = Accepted \<and> (\<exists>u. normalize_text tx = Some u \<and> clip_detected u
        \<and> t - last_clip_time st > 2 \<and> u \<notin> set (items (recent_commands st))
        \<and> st' = st\<lparr>last_clip_time := t, recent_commands := deque_append u (recent_commands st)\<rparr>)"
    then obtain u where u: "normalize_text tx = Some u"
      and st': "st' = st\<lparr>last_clip_time := t, recent_commands := deque_append u (recent_commands st)\<rparr>"
      by blast
    from Cons.prems have m: "maxlen (recent_commands st) = Some 3"
      and len: "length (items (recent_commands st)) \<le> 3" by (simp_all add: recent_commands_ok_def)
    have i: "items (recent_commands st') = last_n 3 (items (recent_commands st) @ [u])"
      unfolding st' using deque_append_items(1)[OF m len, of u] by simp
    have acc: "accepted_commands (ev # evs) st = [u] @ accepted_commands evs st'"
      unfolding ev accepted_commands_Cons p using a u by simp
    have "last_n 3 (items (recent_commands st') @ accepted_commands evs st')
            = last_n 3 ((items (recent_commands st) @ [u]) @ accepted_commands evs st')"
      unfolding i by (rule last_n_last_n)
    then show ?thesis using ih l acc by simp
  next
    assume b: "out \<noteq> Accepted \<and> st' = st"
    have acc: "accepted_commands (ev # evs) st = accepted_commands evs st'"
      unfolding ev accepted_commands_Cons p using b by (simp split: option.splits)
    show ?thesis using ih l acc b by simp
  qed
qed

lemma recent_commands_ok_initial: "recent_commands_ok initial_detector"
  by (simp add: recent_commands_ok_def initial_detector_def)

section \<open>Debounce: cooldown and duplicates\<close>

text \<open>
  Claim C10. A trigger that is detected and then suppressed, by the cooldown or by the
  duplicate check, leaves the detector as it was: \<open>last_clip_time\<close> and
  \<open>recent_commands\<close> keep their values. Every detected trigger that is not accepted is
  suppressed in one of these two ways.
\<close>

theorem suppressed_trigger_keeps_state:
  assumes "normalize_text text = Some u" and "clip_detected u"
    and "process_result text t st = (out, st')" and "out \<noteq> Accepted"
  shows "(out = Cooldown \<or> out = Duplicate) \<and> st' = st
         \<and> last_clip_time st' = last_clip_time st \<and> recent_commands st' = recent_commands st"
proof -
  have d: "debounce u t st = (out, st')"
    using assms(1,2,3) by (simp add: process_result_def)
  then show ?thesis using assms(4)
    by (simp add: debounce_def split: if_splits)
qed

theorem suppressed_trigger_keeps_state_witness:
  "normalize_text ''clip'' = Some ''clip'' \<and> clip_detected ''clip''
   \<and> process_result ''clip'' 1 initial_detector = (Cooldown, initial_detector)
   \<and> Cooldown \<noteq> Accepted
   \<and> ((Cooldown = Cooldown \<or> Cooldown = Duplicate) \<and> initial_detector = initial_detector
         \<and> last_clip_time initial_detector = last_clip_time initial_detector
         \<and> recent_commands initial_detector = recent_commands initial_detector)"
proof -
  have a: "normalize_text ''clip'' = Some ''clip''" by code_simp
  have b: "clip_detected ''clip''" by code_simp
  have c: "process_result ''clip'' 1 initial_detector = (Cooldown, initial_detector)" by code_simp
  have d: "Cooldown \<noteq> Accepted" by simp
  from suppressed_trigger_keeps_state[OF a b c d] a b c d show ?thesis by blast
qed

text \<open>
  Claim C5. When a first utterance has been accepted at time \<open>t1\<close>, its time is recorded
  as \<open>last_clip_time\<close>, and a second trigger-worthy utterance read less than 2 seconds
  later is suppressed by the cooldown; of the two, exactly one is accepted.
\<close>

theorem cooldown_suppresses_second_trigger:
  assumes "process_result text1 t1 st = (Accepted, st1)"
    and "normalize_text text2 = Some u2" and "clip_detected u2"
    and "t2 - t1 < 2"
  shows "last_clip_time st1 = t1
         \<and> process_result text2 t2 st1 = (Cooldown, st1)
         \<and> listen [(text1, t1), (text2, t2)] st = ([Accepted, Cooldown], st1)
         \<and> length (filter (\<lambda>out. out = Accepted) (fst (listen [(text1, t1), (text2, t2)] st))) = 1"
proof -
  from process_result_cases[OF assms(1)] have lt: "last_clip_time st1 = t1" by auto
  have p2: "process_result text2 t2 st1 = (Cooldown, st1)"
    using assms(2,3,4) lt by (simp add: process_result_def debounce_def)
  have l: "listen [(text1, t1), (text2, t2)] st = ([Accepted, Cooldown], st1)"
    using assms(1) p2 by (simp add: listen_Cons)
  show ?thesis using lt p2 l by simp
qed

theorem cooldown_suppresses_second_trigger_witness:
  "process_result ''clip'' 3 initial_detector
     = (Accepted, \<lparr>recent_commands = \<lparr>maxlen = Some 3, items = [''clip'']\<rparr>, last_clip_time = 3\<rparr>)
   \<and> normalize_text ''clip it'' = Some ''clip it'' \<and> clip_detected ''clip it''
   \<and> (7 / 2 - 3 :: real) < 2
   \<and> listen [(''clip'', 3), (''clip it'', 7 / 2)] initial_detector
     = ([Accepted, Cooldown],
        \<lparr>recent_commands = \<lparr>maxlen = Some 3, items = [''clip'']\<rparr>, last_clip_time = 3\<rparr>)"
proof -
  have a: "process_result ''clip'' 3 initial_detector
     = (Accepted, \<lparr>recent_commands = \<lparr>maxlen = Some 3, items = [''clip'']\<rparr>, last_clip_time = 3\<rparr>)"
    by code_simp
  have b: "normalize_text ''clip it'' = Some ''clip it''" by code_simp
  have c: "clip_detected ''clip it''" by code_simp
  have d: "(7 / 2 - 3 :: real) < 2" by simp
  from cooldown_suppresses_second_trigger[OF a b c d] a b c d show ?thesis by blast
qed

text \<open>
  Claim C6, as the code has it. In a state the loop has reached from its start,
  \<open>recent_commands\<close> holds the last three accepted commands (fewer if fewer were
  accepted). A trigger-worthy utterance read more than 2 seconds after the last accepted
  one is rejected as a duplicate exactly when its cleaned text is among them, and is
  accepted otherwise; on acceptance it is appended, and the oldest entry is dropped when
  three were held. One read 2 seconds after it or less, exactly 2 seconds included, is
  suppressed by the cooldown, duplicate or not.
\<close>

theorem duplicate_check_on_recent_commands:
  assumes "st = snd (listen evs initial_detector)"
    and "normalize_text text = Some u" and "clip_detected u"
  shows "items (recent_commands st) = last_n 3 (accepted_commands evs initial_detector)
    \<and> length (items (recent_commands st)) \<le> 3
    \<and> (t - last_clip_time st > 2 \<longrightarrow>
          (fst (process_result text t st) = Duplicate
             \<longleftrightarrow> u \<in> set (last_n 3 (accepted_commands evs initial_detector)))
          \<and> (fst (process_result text t st) = Accepted
             \<longleftrightarrow> u \<notin> set (last_n 3 (accepted_commands evs initial_detector)))
          \<and> (fst (process_result text t st) = Accepted \<longrightarrow>
               items (recent_commands (snd (process_result text t st)))
                 = (if length (items (recent_commands st)) = 3 then tl (items (recent_commands st))
                    else items (recent_commands st)) @ [u]))
    \<and> (t - last_clip_time st \<le> 2 \<longrightarrow> process_result text t st = (Cooldown, st))"
proof -
  from recent_commands_listen[OF recent_commands_ok_initial, of evs]
  have g: "recent_commands_ok st"
    and i: "items (recent_commands st) = last_n 3 (accepted_commands evs initial_detector)"
    using assms(1) by (simp_all add: initial_detector_def)
  have p: "process_result text t st = debounce u t st"
    using assms(2,3) by (rule process_result_detected)
  have m: "maxlen (recent_commands st) = Some 3"
    and len: "length (items (recent_commands st)) \<le> 3"
    using g by (simp_all add: recent_commands_ok_def)
  have app: "items (deque_append u (recent_commands st))
      = (if length (items (recent_commands st)) = 3 then tl (items (recent_commands st))
               else items (recent_commands st)) @ [u]"
  proof (cases "items (recent_commands st)")
    case Nil
    then show ?thesis using m by (simp add: deque_append_def Let_def)
  next
    case (Cons a as)
    then show ?thesis using m len by (simp add: deque_append_def Let_def)
  qed
  have out: "t - last_clip_time st > 2 \<longrightarrow>
          (fst (process_result text t st) = Duplicate
             \<longleftrightarrow> u \<in> set (last_n 3 (accepted_commands evs initial_detector)))
          \<and> (fst (process_result text t st) = Accepted
             \<longleftrightarrow> u \<notin> set (last_n 3 (accepted_commands evs initial_detector)))
          \<and> (fst (process_result text t st) = Accepted \<longrightarrow>
               items (recent_commands (snd (process_result text t st)))
                 = (if length (items (recent_commands st)) = 3 then tl (items (recent_commands st))
                    else items (recent_commands st)) @ [u])"
  proof
    assume far: "t - last_clip_time st > 2"
    have dup: "fst (debounce u t st) = Duplicate \<longleftrightarrow> u \<in> set (items (recent_commands st))"
      using far by (simp add: debounce_def)
    have acc: "fst (debounce u t st) = Accepted \<longleftrightarrow> u \<notin> set (items (recent_commands st))"
      using far by (simp add: debounce_def)
    have upd: "fst (debounce u t st) = Accepted \<Longrightarrow>
        items (recent_commands (snd (debounce u t st))) = items (deque_append u (recent_commands st))"
      using far by (simp add: debounce_def split: if_splits)
    show "(fst (process_result text t st) = Duplicate
             \<longleftrightarrow> u \<in> set (last_n 3 (accepted_commands evs initial_detector)))
          \<and> (fst (process_result text t st) = Accepted
             \<longleftrightarrow> u \<notin> set (last_n 3 (accepted_commands evs initial_detector)))
          \<and> (fst (process_result text t st) = Accepted \<longrightarrow>
               items (recent_commands (snd (process_result text t st)))
                 = (if length (items (recent_commands st)) = 3 then tl (items (recent_commands st))
                    else items (recent_commands st)) @ [u])"
      unfolding p using i dup acc upd app by simp
  qed
  have near: "t - last_clip_time st \<le> 2 \<longrightarrow> process_result text t st = (Cooldown, st)"
    unfolding p by (simp add: debounce_def)
  from i len out near show ?thesis by (intro conjI)
qed

theorem duplicate_check_on_recent_commands_witness:
  "normalize_text ''clip'' = Some ''clip'' \<and> clip_detected ''clip''
   \<and> accepted_commands [(''clip'', 3)] initial_detector = [''clip'']
   \<and> 10 - last_clip_time (snd (listen [(''clip'', 3)] initial_detector)) > 2
   \<and> fst (process_result ''clip'' 10 (snd (listen [(''clip'', 3)] initial_detector))) = Duplicate
   \<and> 5 - last_clip_time (snd (listen [(''clip'', 3)] initial_detector)) \<le> 2
   \<and> fst (process_result ''clip'' 5 (snd (listen [(''clip'', 3)] initial_detector))) = Cooldown"
proof -
  have b: "normalize_text ''clip'' = Some ''clip''" by code_simp
  have c: "clip_detected ''clip''" by code_simp
  have d: "10 - last_clip_time (snd (listen [(''clip'', 3)] initial_detector)) > 2" by code_simp
  have d': "5 - last_clip_time (snd (listen [(''clip'', 3)] initial_detector)) \<le> 2" by code_simp
  have e: "accepted_commands [(''clip'', 3)] initial_detector = [''clip'']" by code_simp
  have f: "''clip'' \<in> set (last_n 3 (accepted_commands [(''clip'', 3)] initial_detector))"
    unfolding e by (simp add: last_n_def)
  from duplicate_check_on_recent_commands[where t = 10 and evs = "[(''clip'', 3)]", OF refl b c] d f
  have g: "fst (process_result ''clip'' 10 (snd (listen [(''clip'', 3)] initial_detector))) = Duplicate"
    by blast
  from duplicate_check_on_recent_commands[where t = 5 and evs = "[(''clip'', 3)]", OF refl b c] d'
  have "process_result ''clip'' 5 (snd (listen [(''clip'', 3)] initial_detector))
          = (Cooldown, snd (listen [(''clip'', 3)] initial_detector))"
    by blast
  then have h: "fst (process_result ''clip'' 5 (snd (listen [(''clip'', 3)] initial_detector))) = Cooldown"
    by simp
  from b c e d g d' h show ?thesis by (intro conjI)
qed

text \<open>
  The command \<open>clip\<close> is accepted at time 3 and read again at time 5, exactly 2 seconds
  later and so no longer less than 2 seconds after it: it is among the recent commands,
  yet the outcome is the cooldown, not the duplicate rejection. A command that is not
  among them has the same outcome there.
\<close>

theorem duplicate_check_boundary_counterexample:
  "fst (process_result ''clip'' 3 initial_detector) = Accepted
   \<and> \<not> (5 - last_clip_time (snd (listen [(''clip'', 3)] initial_detector)) < 2)
   \<and> ''clip'' \<in> set (last_n 3 (accepted_commands [(''clip'', 3)] initial_detector))
   \<and> fst (process_result ''clip'' 5 (snd (listen [(''clip'', 3)] initial_detector))) = Cooldown
   \<and> ''click'' \<notin> set (last_n 3 (accepted_commands [(''clip'', 3)] initial_detector))
   \<and> fst (process_result ''click'' 5 (snd (listen [(''clip'', 3)] initial_detector))) = Cooldown"
proof -
  have a: "fst (process_result ''clip'' 3 initial_detector) = Accepted" by code_simp
  have b: "\<not> (5 - last_clip_time (snd (listen [(''clip'', 3)] initial_detector)) < 2)" by code_simp
  have c: "''clip'' \<in> set (last_n 3 (accepted_commands [(''clip'', 3)] initial_detector))"
    by code_simp
  have d: "fst (process_result ''clip'' 5 (snd (listen [(''clip'', 3)] initial_detector))) = Cooldown"
    by code_simp
  have e: "''click'' \<notin> set (last_n 3 (accepted_commands [(''clip'', 3)] initial_detector))"
    by code_simp
  have f: "fst (process_result ''click'' 5 (snd (listen [(''clip'', 3)] initial_detector))) = Cooldown"
    by code_simp
  from a b c d e f show ?thesis by (intro conjI)
qed

section \<open>Facts about substrings and normalization\<close>

lemma starts_with_iff: "starts_with t w \<longleftrightarrow> (\<exists>s. t = w @ s)"
  by (induction t w rule: starts_with.induct) auto

lemma str_in_iff: "str_in w t \<longleftrightarrow> (\<exists>p s. t = p @ w @ s)"
proof (induction t)
  case Nil
  show ?case by auto
next
  case (Cons c cs)
  show ?case
  proof
    assume "str_in w (c # cs)"
    then consider "starts_with (c # cs) w" | "str_in w cs" by auto
    then show "\<exists>p s. c # cs = p @ w @ s"
    proof cases
      case 1
      then obtain s where "c # cs = w @ s" unfolding starts_with_iff by blast
      then have "c # cs = [] @ w @ s" by simp
      then show ?thesis by blast
    next
      case 2
      then obtain p s where "cs = p @ w @ s" using Cons.IH by blast
      then have "c # cs = (c # p) @ w @ s" by simp
      then show ?thesis by blast
    qed
  next
    assume "\<exists>p s. c # cs = p @ w @ s"
    then obtain p s where e: "c # cs = p @ w @ s" by blast
    show "str_in w (c # cs)"
    proof (cases p)
      case Nil
      with e have "starts_with (c # cs) w" unfolding starts_with_iff by auto
      then show ?thesis by simp
    next
      case (Cons a p')
      with e have "cs = p' @ w @ s" by simp
      then have "str_in w cs" using Cons.IH by blast
      then show ?thesis by simp
    qed
  qed
qed

lemma starts_with_append_space:
  "CHR '' '' \<notin> set w \<Longrightarrow> starts_with (a @ CHR '' '' # b) w \<longleftrightarrow> starts_with a w"
proof (induction a w rule: starts_with.induct)
  case (1 t)
  show ?case by simp
next
  case (2 x xs)
  then show ?case by auto
next
  case (3 c cs x xs)
  then show ?case by auto
qed

lemma str_in_append_space:
  assumes "CHR '' '' \<notin> set w" and "w \<noteq> []"
  shows "str_in w (a @ CHR '' '' # b) \<longleftrightarrow> str_in w a \<or> str_in w b"
proof (induction a)
  case Nil
  obtain x xs where w: "w = x # xs" using assms(2) by (cases w) auto
  with assms(1) have "x \<noteq> CHR '' ''" by auto
  then show ?case using w by auto
next
  case (Cons c cs)
  have "starts_with ((c # cs) @ CHR '' '' # b) w \<longleftrightarrow> starts_with (c # cs) w"
    using assms(1) by (rule starts_with_append_space)
  then show ?case using Cons.IH by auto
qed

lemma str_in_join:
  assumes "CHR '' '' \<notin> set w" and "w \<noteq> []"
  shows "str_in w (str_join '' '' toks) \<longleftrightarrow> (\<exists>tok\<in>set toks. str_in w tok)"
proof (induction "'' ''" toks rule: str_join.induct)
  case 1
  show ?case using assms(2) by simp
next
  case (2 t)
  show ?case by simp
next
  case (3 t v ts)
  have "str_in w (t @ CHR '' '' # str_join '' '' (v # ts))
          \<longleftrightarrow> str_in w t \<or> str_in w (str_join '' '' (v # ts))"
    using assms by (rule str_in_append_space)
  then show ?case using 3 by simp
qed

lemma clip_words_plain: "w \<in> set clip_words \<Longrightarrow> CHR '' '' \<notin> set w \<and> w \<noteq> []"
  by (auto simp: clip_words_def)

lemma direct_match_iff:
  "direct_match (str_join '' '' toks)
     \<longleftrightarrow> (\<exists>tok\<in>set toks. \<exists>w\<in>set clip_words. str_in w tok)"
proof -
  have "direct_match (str_join '' '' toks)
          \<longleftrightarrow> (\<exists>w\<in>set clip_words. str_in w (str_join '' '' toks))"
    by (simp add: direct_match_def list_ex_iff)
  also have "\<dots> \<longleftrightarrow> (\<exists>w\<in>set clip_words. \<exists>tok\<in>set toks. str_in w tok)"
    using str_in_join clip_words_plain by blast
  finally show ?thesis by blast
qed

lemma fuzzy_scan_find:
  "fuzzy_scan ws = map_option (\<lambda>w. (w, fuzz_ratio ''clip'' w))
                     (find (\<lambda>w. fuzz_ratio ''clip'' w > 40) ws)"
  by (induction ws) (simp_all add: Let_def)

lemma fuzzy_scan_None: "fuzzy_scan ws = None \<longleftrightarrow> (\<forall>w\<in>set ws. \<not> fuzz_ratio ''clip'' w > 40)"
  by (induction ws) (simp_all add: Let_def)

lemma kept_words_plain:
  "w \<in> set (kept_words r) \<Longrightarrow> w \<noteq> [] \<and> (\<forall>c\<in>set w. \<not> is_space c)"
  using str_split_words[of w r] by (simp add: kept_words_def)

lemma str_split_cleaned: "str_split (cleaned_text_of r) = kept_words r"
  unfolding cleaned_text_of_def using kept_words_plain by (intro str_split_join) blast

lemma str_join_Nil_iff:
  "\<forall>w\<in>set ws. w \<noteq> [] \<Longrightarrow> str_join sep ws = [] \<longleftrightarrow> ws = []"
  by (induction sep ws rule: str_join.induct) auto

lemma cleaned_text_empty: "cleaned_text_of r = [] \<longleftrightarrow> kept_words r = []"
  unfolding cleaned_text_of_def using kept_words_plain by (intro str_join_Nil_iff) blast

lemma normalize_text_Some:
  "normalize_text text = Some c \<longleftrightarrow>
     length (recognized_text_of text) > 1 \<and> kept_words (recognized_text_of text) \<noteq> []
     \<and> c = cleaned_text_of (recognized_text_of text)"
  by (auto simp: normalize_text_def Let_def cleaned_text_empty)

lemma normalize_text_None:
  "normalize_text text = None \<longleftrightarrow>
     length (recognized_text_of text) \<le> 1 \<or> kept_words (recognized_text_of text) = []"
  by (auto simp: normalize_text_def Let_def cleaned_text_empty)

lemma str_strip_decomp:
  "\<exists>a b. s = a @ str_strip s @ b \<and> (\<forall>c\<in>set a. is_space c) \<and> (\<forall>c\<in>set b. is_space c)"
proof -
  let ?u = "dropWhile is_space s"
  have 1: "s = takeWhile is_space s @ ?u" by simp
  have 2: "?u = str_strip s @ rev (takeWhile is_space (rev ?u))"
    unfolding str_strip_def by (metis rev_append rev_rev_ident takeWhile_dropWhile_id)
  have 3: "\<forall>c\<in>set (takeWhile is_space s). is_space c" by (auto dest: set_takeWhileD)
  have 4: "\<forall>c\<in>set (rev (takeWhile is_space (rev ?u))). is_space c" by (auto dest: set_takeWhileD)
  have "s = takeWhile is_space s @ str_strip s @ rev (takeWhile is_space (rev ?u))"
    using 1 2 by metis
  with 3 4 show ?thesis by blast
qed

lemma str_strip_ends:
  assumes "str_strip s \<noteq> []"
  shows "\<not> is_space (hd (str_strip s))" and "\<not> is_space (last (str_strip s))"
proof -
  let ?u = "dropWhile is_space s"
  let ?v = "dropWhile is_space (rev ?u)"
  have v: "?v \<noteq> []" using assms by (simp add: str_strip_def)
  then have hv: "\<not> is_space (hd ?v)" by (rule hd_dropWhile)
  have "last (str_strip s) = hd ?v"
    unfolding str_strip_def using v by (simp add: last_rev)
  with hv show "\<not> is_space (last (str_strip s))" by simp
  have u: "?u \<noteq> []" using v by (metis dropWhile.simps(1) rev.simps(1))
  then have hu: "\<not> is_space (hd ?u)" by (rule hd_dropWhile)
  have "rev ?u = takeWhile is_space (rev ?u) @ ?v" by simp
  then have "?u = rev ?v @ rev (takeWhile is_space (rev ?u))"
    by (metis rev_append rev_rev_ident)
  moreover have "rev ?v \<noteq> []" using v by simp
  ultimately have "hd ?u = hd (rev ?v)" by (metis hd_append2)
  with hu show "\<not> is_space (hd (str_strip s))" by (simp add: str_strip_def)
qed

lemma kept_words_recognized:
  "kept_words (recognized_text_of text)
     = filter (\<lambda>w. 1 < length w
                 \<and> w \<notin> {''the'', ''a'', ''an'', ''and'', ''or'', ''but'', ''in'', ''on'', ''at'', ''to''})
         (str_split (str_lower text))"
  by (simp add: kept_words_def recognized_text_of_def str_split_strip common_words_def)

section \<open>Normalization and detection\<close>

text \<open>
  Claim C9. The recognized text is the lower-cased utterance without the whitespace at
  its two ends. An utterance whose recognized text has at most one character is ignored
  with no detection attempted. Otherwise the text is split at whitespace, the words of
  length at most 1 and the ten common words are dropped, and what is left, joined by
  single blanks, is the cleaned text; it is dropped too when nothing is left. The words
  of the cleaned text are exactly the words kept. The utterance \<open>The Clip Now\<close> is
  cleaned to \<open>clip now\<close>, whose word \<open>clip\<close> is in the vocabulary: the direct match
  succeeds and the command is detected.
\<close>

theorem normalization_of_utterances:
  "(\<exists>a b. str_lower text = a @ recognized_text_of text @ b
           \<and> (\<forall>c\<in>set a. is_space c) \<and> (\<forall>c\<in>set b. is_space c))
   \<and> (recognized_text_of text \<noteq> [] \<longrightarrow>
         \<not> is_space (hd (recognized_text_of text)) \<and> \<not> is_space (last (recognized_text_of text)))
   \<and> (length (recognized_text_of text) \<le> 1 \<longrightarrow>
         normalize_text text = None \<and> process_result text t st = (Ignored, st))
   \<and> (normalize_text text = None \<longleftrightarrow>
         length (recognized_text_of text) \<le> 1
         \<or> filter (\<lambda>w. 1 < length w
                 \<and> w \<notin> {''the'', ''a'', ''an'', ''and'', ''or'', ''but'', ''in'', ''on'', ''at'', ''to''})
              (str_split (str_lower text)) = [])
   \<and> (\<forall>c. normalize_text text = Some c \<longrightarrow>
         c = str_join '' ''
               (filter (\<lambda>w. 1 < length w
                   \<and> w \<notin> {''the'', ''a'', ''an'', ''and'', ''or'', ''but'', ''in'', ''on'', ''at'', ''to''})
                 (str_split (str_lower text)))
         \<and> str_split c
             = filter (\<lambda>w. 1 < length w
                   \<and> w \<notin> {''the'', ''a'', ''an'', ''and'', ''or'', ''but'', ''in'', ''on'', ''at'', ''to''})
                 (str_split (str_lower text)))
   \<and> normalize_text ''The Clip Now'' = Some ''clip now''
   \<and> str_split ''clip now'' = [''clip'', ''now'']
   \<and> ''clip'' \<in> set clip_words
   \<and> direct_match ''clip now''
   \<and> clip_detected ''clip now''
   \<and> fst (process_result ''The Clip Now'' 3 initial_detector) = Accepted"
proof -
  have 1: "\<exists>a b. str_lower text = a @ recognized_text_of text @ b
           \<and> (\<forall>c\<in>set a. is_space c) \<and> (\<forall>c\<in>set b. is_space c)"
    unfolding recognized_text_of_def by (rule str_strip_decomp)
  have 2: "recognized_text_of text \<noteq> [] \<longrightarrow>
         \<not> is_space (hd (recognized_text_of text)) \<and> \<not> is_space (last (recognized_text_of text))"
    unfolding recognized_text_of_def using str_strip_ends by blast
  have 3: "length (recognized_text_of text) \<le> 1 \<longrightarrow>
         normalize_text text = None \<and> process_result text t st = (Ignored, st)"
  proof
    assume "length (recognized_text_of text) \<le> 1"
    then have n: "normalize_text text = None" unfolding normalize_text_None by blast
    then show "normalize_text text = None \<and> process_result text t st = (Ignored, st)"
      by (simp add: process_result_def)
  qed
  note k = kept_words_recognized[of "text"]
  have 4: "normalize_text text = None \<longleftrightarrow>
         length (recognized_text_of text) \<le> 1 \<or> kept_words (recognized_text_of text) = []"
    by (rule normalize_text_None)
  have 5: "\<forall>c. normalize_text text = Some c \<longrightarrow>
         c = str_join '' '' (kept_words (recognized_text_of text))
         \<and> str_split c = kept_words (recognized_text_of text)"
    by (simp add: normalize_text_Some str_split_cleaned) (simp add: cleaned_text_of_def)
  have 6: "normalize_text ''The Clip Now'' = Some ''clip now''" by code_simp
  have 7: "str_split ''clip now'' = [''clip'', ''now'']" by code_simp
  have 8: "''clip'' \<in> set clip_words" by (simp add: clip_words_def)
  have 9: "direct_match ''clip now''" by code_simp
  have 10: "clip_detected ''clip now''" by code_simp
  have 11: "fst (process_result ''The Clip Now'' 3 initial_detector) = Accepted" by code_simp
  show ?thesis
    using 1 2 3 4[unfolded k] 5[unfolded k] 6 7 8 9 10 11 by blast
qed

theorem normalization_of_utterances_witness:
  "normalize_text ''The Clip Now'' = Some ''clip now''
   \<and> str_split ''clip now''
       = filter (\<lambda>w. 1 < length w
                   \<and> w \<notin> {''the'', ''a'', ''an'', ''and'', ''or'', ''but'', ''in'', ''on'', ''at'', ''to''})
                 (str_split (str_lower ''The Clip Now''))
   \<and> length (recognized_text_of '' A '') \<le> 1
   \<and> process_result '' A '' 3 initial_detector = (Ignored, initial_detector)"
proof -
  have a: "normalize_text ''The Clip Now'' = Some ''clip now''" by code_simp
  have b: "length (recognized_text_of '' A '') \<le> 1" by code_simp
  from normalization_of_utterances[of "''The Clip Now''" 3 initial_detector] a
  have c: "str_split ''clip now''
       = filter (\<lambda>w. 1 < length w
                   \<and> w \<notin> {''the'', ''a'', ''an'', ''and'', ''or'', ''but'', ''in'', ''on'', ''at'', ''to''})
                 (str_split (str_lower ''The Clip Now''))"
    by blast
  from normalization_of_utterances[of "'' A ''" 3 initial_detector] b
  have d: "process_result '' A '' 3 initial_detector = (Ignored, initial_detector)"
    by blast
  from a b c d show ?thesis by blast
qed

text \<open>
  Claim C1, as the code has it. For a cleaned text, the direct match succeeds exactly when
  some word of the text contains an entry of the vocabulary as a substring; a word equal
  to an entry is one such case. Detection succeeds exactly when the direct match does,
  or it does not and some word has a ratio against \<open>clip\<close> above 40. The scan for
  such a word reports the first one in the text.
\<close>

theorem clip_detection_by_substring_or_ratio:
  assumes "normalize_text text = Some c"
  shows "str_split c = kept_words (recognized_text_of text)
    \<and> (clip_detected c \<longleftrightarrow>
         (\<exists>tok\<in>set (str_split c). \<exists>w\<in>set clip_words. str_in w tok)
         \<or> (\<not> (\<exists>tok\<in>set (str_split c). \<exists>w\<in>set clip_words. str_in w tok)
             \<and> (\<exists>tok\<in>set (str_split c). fuzz_ratio ''clip'' tok > 40)))
    \<and> (direct_match c \<longleftrightarrow>
         (\<exists>tok\<in>set (str_split c). \<exists>w\<in>set clip_words. \<exists>p s. tok = p @ w @ s))
    \<and> ((\<exists>tok\<in>set (str_split c). tok \<in> set clip_words) \<longrightarrow> direct_match c \<and> clip_detected c)
    \<and> fuzzy_scan (str_split c)
         = map_option (\<lambda>w. (w, fuzz_ratio ''clip'' w))
             (find (\<lambda>w. fuzz_ratio ''clip'' w > 40) (str_split c))"
proof -
  let ?r = "recognized_text_of text"
  from assms have c: "c = str_join '' '' (kept_words ?r)"
    by (simp add: normalize_text_Some cleaned_text_of_def)
  have sp: "str_split c = kept_words ?r"
    using str_split_cleaned[of ?r] c by (simp add: cleaned_text_of_def)
  have dm: "direct_match c \<longleftrightarrow> (\<exists>tok\<in>set (str_split c). \<exists>w\<in>set clip_words. str_in w tok)"
  proof -
    have "direct_match c \<longleftrightarrow> (\<exists>tok\<in>set (kept_words ?r). \<exists>w\<in>set clip_words. str_in w tok)"
      unfolding c by (rule direct_match_iff)
    then show ?thesis unfolding sp .
  qed
  have fz: "fuzzy_scan (str_split c) \<noteq> None
              \<longleftrightarrow> (\<exists>tok\<in>set (str_split c). fuzz_ratio ''clip'' tok > 40)"
    by (simp add: fuzzy_scan_None)
  have cd: "clip_detected c \<longleftrightarrow> direct_match c \<or> (\<not> direct_match c \<and> fuzzy_scan (str_split c) \<noteq> None)"
    by (simp add: clip_detected_def)
  have eq: "(\<exists>tok\<in>set (str_split c). tok \<in> set clip_words) \<longrightarrow> direct_match c"
  proof
    assume "\<exists>tok\<in>set (str_split c). tok \<in> set clip_words"
    then obtain tok where t: "tok \<in> set (str_split c)" "tok \<in> set clip_words" by blast
    have "tok = [] @ tok @ []" by simp
    then have "str_in tok tok" unfolding str_in_iff by blast
    with t show "direct_match c" unfolding dm by blast
  qed
  have dm2: "direct_match c \<longleftrightarrow>
         (\<exists>tok\<in>set (str_split c). \<exists>w\<in>set clip_words. \<exists>p s. tok = p @ w @ s)"
    unfolding dm str_in_iff by blast
  have c2: "clip_detected c \<longleftrightarrow>
         (\<exists>tok\<in>set (str_split c). \<exists>w\<in>set clip_words. str_in w tok)
         \<or> (\<not> (\<exists>tok\<in>set (str_split c). \<exists>w\<in>set clip_words. str_in w tok)
             \<and> (\<exists>tok\<in>set (str_split c). fuzz_ratio ''clip'' tok > 40))"
    unfolding cd fz dm ..
  have c4: "(\<exists>tok\<in>set (str_split c). tok \<in> set clip_words) \<longrightarrow> direct_match c \<and> clip_detected c"
    using eq cd by blast
  show ?thesis
    using sp c2 dm2 c4 fuzzy_scan_find[of "str_split c"] by (intro conjI)
qed

theorem clip_detection_by_substring_or_ratio_witness:
  "normalize_text ''quickly'' = Some ''quickly''
   \<and> str_split ''quickly'' = [''quickly'']
   \<and> str_in ''quick'' ''quickly''
   \<and> clip_detected ''quickly''"
proof -
  have a: "normalize_text ''quickly'' = Some ''quickly''" by code_simp
  have k: "kept_words (recognized_text_of ''quickly'') = [''quickly'']" by code_simp
  have s: "str_in ''quick'' ''quickly''" by code_simp
  have w: "''quick'' \<in> set clip_words" by (simp add: clip_words_def)
  note t = clip_detection_by_substring_or_ratio[OF a]
  from t k have sp: "str_split ''quickly'' = [''quickly'']" by simp
  have m: "''quickly'' \<in> set (str_split ''quickly'')" unfolding sp by simp
  have "\<exists>tok\<in>set (str_split ''quickly''). \<exists>w\<in>set clip_words. str_in w tok"
    using m s w by blast
  with t have "clip_detected ''quickly''" by blast
  with a sp s show ?thesis by blast
qed

text \<open>
  The utterance \<open>quickly\<close> is detected, although its only word is no entry of the
  vocabulary and its ratio against \<open>clip\<close> is 400/11, below 40: the vocabulary entry
  \<open>quick\<close> occurs in it.
\<close>

theorem clip_detection_counterexample:
  "normalize_text ''quickly'' = Some ''quickly''
   \<and> kept_words (recognized_text_of ''quickly'') = [''quickly'']
   \<and> clip_detected ''quickly''
   \<and> \<not> spec_detected [''quickly'']"
proof -
  have a: "normalize_text ''quickly'' = Some ''quickly''" by code_simp
  have b: "kept_words (recognized_text_of ''quickly'') = [''quickly'']" by code_simp
  have c: "clip_detected ''quickly''" by code_simp
  have d: "\<not> spec_detected [''quickly'']" by code_simp
  from a b c d show ?thesis by blast
qed

section \<open>Facts about the blocks of \<open>save_clip\<close>\<close>

lemma remove_if_exists_result:
  assumes "remove_if_exists r p fs = (x, fs', ev)"
  shows "(x = None \<longrightarrow> fs' p = None)
    \<and> (x \<noteq> None \<longrightarrow> x = Some OtherError \<and> r = Remove_fails \<and> fs' = fs \<and> fs p \<noteq> None)
    \<and> (\<forall>q. fs q = None \<longrightarrow> fs' q = None)
    \<and> (r = Remove_ok \<longrightarrow> x = None)
    \<and> set ev \<subseteq> {Remove_file p, Remove_file_failed p}"
  using assms by (auto simp: remove_if_exists_def split: if_splits remove_result.splits)

lemma finally_clause_result:
  assumes "finally_clause e tv ta fs = (x, fs', ev)"
  shows "x = None \<longrightarrow> fs' tv = None \<and> fs' ta = None"
    and "x \<noteq> None \<longrightarrow> x = Some OtherError
           \<and> (video_remove e = Remove_fails \<or> audio_remove e = Remove_fails)
           \<and> (fs' tv \<noteq> None \<or> fs' ta \<noteq> None)"
    and "video_remove e = Remove_ok \<and> audio_remove e = Remove_ok \<longrightarrow> x = None"
    and "set ev \<subseteq> {Remove_file tv, Remove_file ta, Remove_file_failed tv, Remove_file_failed ta}"
proof -
  obtain x1 fs1 ev1 where r1: "remove_if_exists (video_remove e) tv fs = (x1, fs1, ev1)"
    using prod_cases3 by blast
  obtain x2 fs2 ev2 where r2: "remove_if_exists (audio_remove e) ta fs1 = (x2, fs2, ev2)"
    using prod_cases3 by blast
  note a = remove_if_exists_result[OF r1]
  note b = remove_if_exists_result[OF r2]
  have c: "(x1 \<noteq> None \<and> x = x1 \<and> fs' = fs1 \<and> ev = ev1)
         \<or> (x1 = None \<and> x = x2 \<and> fs' = fs2 \<and> ev = ev1 @ ev2)"
    using assms by (cases x1) (auto simp add: finally_clause_def r1 r2)
  show "x = None \<longrightarrow> fs' tv = None \<and> fs' ta = None"
    using a b c by auto
  show "x \<noteq> None \<longrightarrow> x = Some OtherError
           \<and> (video_remove e = Remove_fails \<or> audio_remove e = Remove_fails)
           \<and> (fs' tv \<noteq> None \<or> fs' ta \<noteq> None)"
    using a b c by auto
  show "video_remove e = Remove_ok \<and> audio_remove e = Remove_ok \<longrightarrow> x = None"
    using a b c by auto
  show "set ev \<subseteq> {Remove_file tv, Remove_file ta, Remove_file_failed tv, Remove_file_failed ta}"
    using a b c by auto
qed

lemma except_clauses_catch: "fst (except_clauses r) = None"
  by (cases r rule: except_clauses.cases) simp_all


lemma except_clauses_events:
  "ev \<in> set (snd (except_clauses r)) \<Longrightarrow> \<exists>m. ev = Print m"
  by (cases r rule: except_clauses.cases) (auto split: if_splits)

lemma write_file_events:
  "write_file r p copy content fs = (x, fs', ev) \<Longrightarrow> set ev \<subseteq> {Open_file p, copy, Write_file p}"
  by (auto simp: write_file_def split: io_result.splits)

lemma try_block_events:
  assumes "try_block e self out tv ta fs = (x, fs', ev)"
  shows "Lock_acquire \<notin> set ev \<and> Lock_release \<notin> set ev"
proof -
  obtain x1 fs1 ev1 where w1: "write_file (video_io e) tv Copy_frame_buffer
      (Raw_file (concat (buffer_items (frame_buffer self)))) fs = (x1, fs1, ev1)"
    using prod_cases3 by blast
  obtain x2 fs2 ev2 where w2: "(if \<not> buffer_is_empty (audio_buffer self)
      then write_file (audio_io e) ta Copy_audio_buffer
             (Wave_file 2 2 44100 (concat (buffer_items (audio_buffer self)))) fs1
      else (None, fs1, [])) = (x2, fs2, ev2)"
    using prod_cases3 by blast
  have l1: "Lock_acquire \<notin> set ev1 \<and> Lock_release \<notin> set ev1"
    using write_file_events[OF w1] by auto
  have l2: "Lock_acquire \<notin> set ev2 \<and> Lock_release \<notin> set ev2"
    using w2 write_file_events[of "audio_io e" ta Copy_audio_buffer _ fs1 x2 fs2 ev2]
    by (auto split: if_splits)
  obtain x3 fs3 where en: "encoder e (ffmpeg_command (system e) tv ta (fs2 ta \<noteq> None) out) fs2 = (x3, fs3)"
    by (cases "encoder e (ffmpeg_command (system e) tv ta (fs2 ta \<noteq> None) out) fs2")
  have "ev = ev1 \<or> ev = ev1 @ ev2
        \<or> ev = ev1 @ ev2 @ [Print Processing_clip,
               Run (ffmpeg_command (system e) tv ta (fs2 ta \<noteq> None) out)]
        \<or> ev = ev1 @ ev2 @ [Print Processing_clip,
               Run (ffmpeg_command (system e) tv ta (fs2 ta \<noteq> None) out),
               Print (Clip_saved out)]"
    using assms by (cases x1; cases x2)
      (auto simp add: try_block_def w1 w2 Let_def split: prod.splits option.splits)
  with l1 l2 show ?thesis by auto
qed


lemma save_clip_nonempty:
  assumes "\<not> buffer_is_empty (frame_buffer self)"
  shows "\<exists>raised fs1 ev1 failed fs2 ev3.
    try_block e (self\<lparr>clip_counter := clip_counter self + 1\<rparr>)
      (output_filename_of e (self\<lparr>clip_counter := clip_counter self + 1\<rparr>))
      (temp_video_of e self) (temp_audio_of e self) fs = (raised, fs1, ev1)
    \<and> finally_clause e (temp_video_of e self) (temp_audio_of e self) fs1 = (failed, fs2, ev3)
    \<and> save_clip e self fs =
        (failed, self\<lparr>clip_counter := clip_counter self + 1\<rparr>, fs2,
         [Lock_acquire,
          Print (Saving_clip_to (output_filename_of e (self\<lparr>clip_counter := clip_counter self + 1\<rparr>)))]
           @ ev1 @ snd (except_clauses raised) @ ev3 @ [Lock_release])"
proof -
  let ?self = "self\<lparr>clip_counter := clip_counter self + 1\<rparr>"
  have tv: "temp_video_of e ?self = temp_video_of e self" by (simp add: temp_video_of_def)
  have ta: "temp_audio_of e ?self = temp_audio_of e self" by (simp add: temp_audio_of_def)
  obtain raised fs1 ev1 where t: "try_block e ?self (output_filename_of e ?self)
      (temp_video_of e self) (temp_audio_of e self) fs = (raised, fs1, ev1)"
    using prod_cases3 by blast
  obtain failed fs2 ev3 where
    f: "finally_clause e (temp_video_of e self) (temp_audio_of e self) fs1 = (failed, fs2, ev3)"
    using prod_cases3 by blast
  have "save_clip e self fs =
        (failed, ?self, fs2,
         [Lock_acquire, Print (Saving_clip_to (output_filename_of e ?self))]
           @ ev1 @ snd (except_clauses raised) @ ev3 @ [Lock_release])"
    using assms by (cases failed)
      (simp_all add: save_clip_def Let_def tv ta t f case_prod_unfold except_clauses_catch)
  with t f show ?thesis by blast
qed

lemma failing_events:
  "events_of (save_clip failing_env example_clipper Map.empty) =
     [Lock_acquire,
      Print (Saving_clip_to ''clips/clip_20240101_120000_1.mp4''),
      Open_file ''clips/temp_video_20240101_120000.raw'',
      Copy_frame_buffer,
      Write_file ''clips/temp_video_20240101_120000.raw'',
      Print Processing_clip,
      Run [''ffmpeg'', ''-f'', ''rawvideo'', ''-vcodec'', ''rawvideo'', ''-s'', ''1920x1080'',
           ''-pix_fmt'', ''rgb24'', ''-framerate'', ''30'', ''-i'',
           ''clips/temp_video_20240101_120000.raw'',
           ''-c:v'', ''libx264'', ''-preset'', ''ultrafast'', ''-pix_fmt'', ''yuv420p'',
           ''-profile:v'', ''baseline'', ''-level'', ''3.0'', ''-r'', ''30'', ''-y'',
           ''clips/clip_20240101_120000_1.mp4''],
      Print (Error_saving_clip (CalledProcessError ''Invalid data'')),
      Print (FFmpeg_error ''Invalid data''),
      Remove_file ''clips/temp_video_20240101_120000.raw'',
      Lock_release]"
  by code_simp

lemma failing_counter:
  "clip_counter (clipper_of (save_clip failing_env example_clipper Map.empty)) = 1"
  by code_simp

section \<open>Saving: cleanup, the empty buffer, the counter\<close>




text \<open>
  Claim C4. A save that finds the frame buffer unset or empty prints that there are no
  frames and returns: the files and the object are as before, and nothing was opened,
  written or run.
\<close>

theorem save_clip_nothing_to_save:
  assumes "frame_buffer self = None \<or> (\<exists>d. frame_buffer self = Some d \<and> items d = [])"
  shows "save_clip e self fs = (None, self, fs, [Lock_acquire, Print No_frames_to_save, Lock_release])
    \<and> files_of (save_clip e self fs) = fs
    \<and> clipper_of (save_clip e self fs) = self
    \<and> (\<forall>p. Open_file p \<notin> set (events_of (save_clip e self fs))
            \<and> Write_file p \<notin> set (events_of (save_clip e self fs)))
    \<and> (\<forall>c. Run c \<notin> set (events_of (save_clip e self fs)))"
proof -
  have "buffer_is_empty (frame_buffer self)"
    using assms by (auto simp: buffer_is_empty_def)
  then have s: "save_clip e self fs = (None, self, fs, [Lock_acquire, Print No_frames_to_save, Lock_release])"
    by (simp add: save_clip_def)
  then show ?thesis by (simp add: files_of_def clipper_of_def events_of_def)
qed

theorem save_clip_nothing_to_save_witness:
  "frame_buffer (example_clipper\<lparr>frame_buffer := None\<rparr>) = None
   \<and> save_clip working_env (example_clipper\<lparr>frame_buffer := None\<rparr>) Map.empty
       = (None, example_clipper\<lparr>frame_buffer := None\<rparr>, Map.empty,
          [Lock_acquire, Print No_frames_to_save, Lock_release])"
proof -
  have a: "frame_buffer (example_clipper\<lparr>frame_buffer := None\<rparr>) = None" by simp
  then have "frame_buffer (example_clipper\<lparr>frame_buffer := None\<rparr>) = None
      \<or> (\<exists>d. frame_buffer (example_clipper\<lparr>frame_buffer := None\<rparr>) = Some d \<and> items d = [])"
    by blast
  from save_clip_nothing_to_save[OF this, of working_env Map.empty] a show ?thesis by blast
qed

text \<open>
  Claim C7, as the code has it. The counter never decreases. A save that finds the frame
  buffer unset or empty leaves it unchanged; every other save adds exactly one to it,
  before any file is written and whatever the encoder does later.
\<close>

theorem clip_counter_after_save:
  "clip_counter (clipper_of (save_clip e self fs))
     = (if buffer_is_empty (frame_buffer self) then clip_counter self else clip_counter self + 1)
   \<and> clip_counter self \<le> clip_counter (clipper_of (save_clip e self fs))"
proof (cases "buffer_is_empty (frame_buffer self)")
  case True
  then show ?thesis by (simp add: save_clip_def clipper_of_def)
next
  case False
  from save_clip_nonempty[OF False, of e fs] show ?thesis
    using False by (auto simp: clipper_of_def)
qed

theorem clip_counter_after_save_witness:
  "\<not> buffer_is_empty (frame_buffer example_clipper)
   \<and> clip_counter (clipper_of (save_clip working_env example_clipper Map.empty)) = 1"
proof -
  have a: "\<not> buffer_is_empty (frame_buffer example_clipper)" by code_simp
  have b: "clip_counter example_clipper = 0" by (simp add: example_clipper_def)
  from clip_counter_after_save[of working_env example_clipper Map.empty] a b
  show ?thesis by simp
qed

text \<open>
  A save whose encoder exits with a non-zero status: the error is caught and printed, and
  the counter has gone from 0 to 1.
\<close>

theorem clip_counter_failed_encoder_counterexample:
  "fst (encoder failing_env [] Map.empty) = Some (CalledProcessError ''Invalid data'')
   \<and> Print (Error_saving_clip (CalledProcessError ''Invalid data''))
        \<in> set (events_of (save_clip failing_env example_clipper Map.empty))
   \<and> clip_counter example_clipper = 0
   \<and> clip_counter (clipper_of (save_clip failing_env example_clipper Map.empty)) = 1"
proof -
  have a: "fst (encoder failing_env [] Map.empty) = Some (CalledProcessError ''Invalid data'')"
    by (simp add: failing_env_def failing_encoder_def)
  have b: "Print (Error_saving_clip (CalledProcessError ''Invalid data''))
        \<in> set (events_of (save_clip failing_env example_clipper Map.empty))"
    unfolding failing_events by simp
  have c: "clip_counter example_clipper = 0" by (simp add: example_clipper_def)
  from a b c failing_counter show ?thesis by (intro conjI)
qed

section \<open>Buffer capacities\<close>

lemma pushes_items:
  "maxlen d = Some n \<Longrightarrow> length (items d) \<le> n \<Longrightarrow>
   items (pushes xs d) = last_n n (items d @ xs) \<and> maxlen (pushes xs d) = Some n"
proof (induction xs arbitrary: d)
  case Nil
  then show ?case by (simp add: pushes_def last_n_def)
next
  case (Cons x xs)
  let ?d = "deque_append x d"
  have i: "items ?d = last_n n (items d @ [x])" and m: "maxlen ?d = Some n"
    using deque_append_items[OF Cons.prems] by simp_all
  have l: "length (items ?d) \<le> n" unfolding i by (rule length_last_n)
  have "items (pushes xs ?d) = last_n n (items ?d @ xs) \<and> maxlen (pushes xs ?d) = Some n"
    using Cons.IH[OF m l] .
  moreover have "last_n n (items ?d @ xs) = last_n n ((items d @ [x]) @ xs)"
    unfolding i by (rule last_n_last_n)
  moreover have "pushes (x # xs) d = pushes xs ?d" by (simp add: pushes_def)
  ultimately show ?case by simp
qed

lemma set_buffer_duration_negative:
  "d < 0 \<Longrightarrow>
   set_buffer_duration d self =
     (Some (if d * 30 < - (2 ^ 63) then OverflowError else ValueError),
      self\<lparr>buffer_duration := d\<rparr>)"
  by (simp add: set_buffer_duration_def deque_new_def Let_def)

text \<open>
  Claim C8, as the code has it. For a duration \<open>d\<close> that is not negative (and small
  enough for the bounds to be sizes), \<open>set_buffer_duration\<close> records it and replaces
  both buffers by empty ones, whatever they held: the frame buffer with bound
  \<open>d * 30\<close>, the audio buffer with bound \<open>d * 44100 * 2\<close>. After any pushes each buffer
  holds the most recent items up to its bound, so it never grows past it and the oldest
  items are the ones dropped.
\<close>

theorem set_buffer_duration_capacities:
  assumes "0 \<le> d" and "d * 44100 * 2 \<le> 2 ^ 63 - 1"
  shows "set_buffer_duration d self =
           (None, self\<lparr>buffer_duration := d,
                       frame_buffer := Some \<lparr>maxlen = Some (nat (d * 30)), items = []\<rparr>,
                       audio_buffer := Some \<lparr>maxlen = Some (nat (d * 44100 * 2)), items = []\<rparr>\<rparr>)
    \<and> (\<forall>frames :: bytes list.
          items (pushes frames \<lparr>maxlen = Some (nat (d * 30)), items = []\<rparr>)
            = last_n (nat (d * 30)) frames
          \<and> length (items (pushes frames \<lparr>maxlen = Some (nat (d * 30)), items = []\<rparr>))
              \<le> nat (d * 30))
    \<and> (\<forall>blocks :: bytes list.
          items (pushes blocks \<lparr>maxlen = Some (nat (d * 44100 * 2)), items = []\<rparr>)
            = last_n (nat (d * 44100 * 2)) blocks
          \<and> length (items (pushes blocks \<lparr>maxlen = Some (nat (d * 44100 * 2)), items = []\<rparr>))
              \<le> nat (d * 44100 * 2))"
proof -
  have f: "d * 30 \<le> 2 ^ 63 - 1" using assms by simp
  have 1: "set_buffer_duration d self =
           (None, self\<lparr>buffer_duration := d,
                       frame_buffer := Some \<lparr>maxlen = Some (nat (d * 30)), items = []\<rparr>,
                       audio_buffer := Some \<lparr>maxlen = Some (nat (d * 44100 * 2)), items = []\<rparr>\<rparr>)"
    using assms f by (simp add: set_buffer_duration_def deque_new_def Let_def)
  have p: "\<And>n (xs :: bytes list). items (pushes xs \<lparr>maxlen = Some n, items = []\<rparr>) = last_n n xs
      \<and> length (items (pushes xs \<lparr>maxlen = Some n, items = []\<rparr>)) \<le> n"
  proof -
    fix n and xs :: "bytes list"
    have "items (pushes xs \<lparr>maxlen = Some n, items = []\<rparr>) = last_n n ([] @ xs)"
      using pushes_items[of "\<lparr>maxlen = Some n, items = []\<rparr>" n xs] by simp
    then show "items (pushes xs \<lparr>maxlen = Some n, items = []\<rparr>) = last_n n xs
      \<and> length (items (pushes xs \<lparr>maxlen = Some n, items = []\<rparr>)) \<le> n"
      by (simp add: length_last_n)
  qed
  from 1 p show ?thesis by blast
qed

theorem set_buffer_duration_capacities_witness:
  "(0::int) \<le> 1 \<and> (1::int) * 44100 * 2 \<le> 2 ^ 63 - 1
   \<and> set_buffer_duration 1 example_clipper =
        (None, example_clipper\<lparr>buffer_duration := 1,
                 frame_buffer := Some \<lparr>maxlen = Some 30, items = []\<rparr>,
                 audio_buffer := Some \<lparr>maxlen = Some 88200, items = []\<rparr>\<rparr>)"
proof -
  have a: "(0::int) \<le> 1" by simp
  have b: "(1::int) * 44100 * 2 \<le> 2 ^ 63 - 1" by simp
  from set_buffer_duration_capacities[OF a b, of example_clipper] a b show ?thesis by simp
qed

text \<open>
  For the duration 1 the bound of the audio buffer is 88200, not
  \<open>1 * 44100 * 2 * 2 = 176400\<close>.
\<close>

theorem audio_capacity_counterexample:
  "map_option maxlen (audio_buffer (snd (set_buffer_duration 1 example_clipper))) = Some (Some 88200)
   \<and> (88200 :: nat) \<noteq> 1 * 44100 * 2 * 2"
  by (simp add: set_buffer_duration_def deque_new_def Let_def)


section \<open>The scope of the lock\<close>

lemma held_events_no_lock:
  "Lock_acquire \<notin> set mid \<Longrightarrow> Lock_release \<notin> set mid \<Longrightarrow>
   held_events True (mid @ [Lock_release]) = mid"
proof (induction mid)
  case Nil
  show ?case by simp
next
  case (Cons ev mid)
  then have "ev \<noteq> Lock_acquire" "ev \<noteq> Lock_release" by auto
  then have "held_events True (ev # (mid @ [Lock_release])) = ev # held_events True (mid @ [Lock_release])"
    by (cases ev) simp_all
  with Cons show ?case by simp
qed

lemma save_clip_trace:
  "\<exists>mid. events_of (save_clip e self fs) = Lock_acquire # mid @ [Lock_release]
         \<and> Lock_acquire \<notin> set mid \<and> Lock_release \<notin> set mid"
proof (cases "buffer_is_empty (frame_buffer self)")
  case True
  then have "events_of (save_clip e self fs) = Lock_acquire # [Print No_frames_to_save] @ [Lock_release]"
    by (simp add: save_clip_def events_of_def)
  then show ?thesis by fastforce
next
  case False
  let ?self = "self\<lparr>clip_counter := clip_counter self + 1\<rparr>"
  let ?out = "output_filename_of e ?self"
  from save_clip_nonempty[OF False, of e fs] obtain raised fs1 ev1 failed fs2 ev3 where
    t: "try_block e ?self ?out (temp_video_of e self) (temp_audio_of e self) fs = (raised, fs1, ev1)"
    and f: "finally_clause e (temp_video_of e self) (temp_audio_of e self) fs1 = (failed, fs2, ev3)"
    and s: "save_clip e self fs =
        (failed, ?self, fs2,
         [Lock_acquire, Print (Saving_clip_to ?out)]
           @ ev1 @ snd (except_clauses raised) @ ev3 @ [Lock_release])"
    by blast
  let ?mid = "Print (Saving_clip_to ?out) # ev1 @ snd (except_clauses raised) @ ev3"
  have e1: "Lock_acquire \<notin> set ev1 \<and> Lock_release \<notin> set ev1"
    using try_block_events[OF t] .
  have e2: "Lock_acquire \<notin> set (snd (except_clauses raised))
          \<and> Lock_release \<notin> set (snd (except_clauses raised))"
    using except_clauses_events[of _ raised] by blast
  have e3: "Lock_acquire \<notin> set ev3 \<and> Lock_release \<notin> set ev3"
    using finally_clause_result(4)[OF f] by auto
  have "events_of (save_clip e self fs) = Lock_acquire # ?mid @ [Lock_release]"
    by (simp add: s events_of_def)
  moreover have "Lock_acquire \<notin> set ?mid \<and> Lock_release \<notin> set ?mid"
    using e1 e2 e3 by simp
  ultimately show ?thesis by blast
qed

lemma lock_ok_other:
  "e \<noteq> Lock_acquire \<Longrightarrow> e \<noteq> Lock_release \<Longrightarrow> lock_ok owner ((i, e) # es) = lock_ok owner es"
  by (cases e) simp_all

lemma events_of_thread_Cons:
  "events_of_thread i ((k, e) # es) = (if k = i then e # events_of_thread i es else events_of_thread i es)"
  by (simp add: events_of_thread_def)

lemma only_other_thread:
  "events_of_thread i es = [] \<Longrightarrow> \<forall>p\<in>set es. fst p = i \<or> fst p = j \<Longrightarrow>
   es = map (Pair j) (events_of_thread j es)"
proof (induction es)
  case Nil
  show ?case by (simp add: events_of_thread_def)
next
  case (Cons p es)
  obtain k e where p: "p = (k, e)" by (cases p)
  from Cons.prems(1) have ki: "k \<noteq> i" and r: "events_of_thread i es = []"
    unfolding p events_of_thread_Cons by (auto split: if_splits)
  with Cons.prems(2) have kj: "k = j" unfolding p by auto
  have "es = map (Pair j) (events_of_thread j es)"
    using Cons.IH[OF r] Cons.prems(2) by simp
  then show ?case unfolding p events_of_thread_Cons using kj by simp
qed

lemma owner_runs_to_release:
  assumes "lock_ok (Some i) sched" and "i \<noteq> j"
    and "\<forall>p\<in>set sched. fst p = i \<or> fst p = j"
    and "events_of_thread i sched = mid @ [Lock_release]"
    and "Lock_acquire \<notin> set mid" and "Lock_release \<notin> set mid"
    and "events_of_thread j sched = [] \<or> hd (events_of_thread j sched) = Lock_acquire"
  shows "sched = map (Pair i) (mid @ [Lock_release]) @ map (Pair j) (events_of_thread j sched)"
  using assms
proof (induction sched arbitrary: mid)
  case Nil
  then show ?case by (simp add: events_of_thread_def)
next
  case (Cons p rest)
  obtain k e where p: "p = (k, e)" by (cases p)
  from Cons.prems(3) have k: "k = i \<or> k = j" unfolding p by simp
  have kj: "k \<noteq> j"
  proof
    assume "k = j"
    then have "events_of_thread j (p # rest) = e # events_of_thread j rest"
      unfolding p events_of_thread_Cons by simp
    with Cons.prems(7) have "e = Lock_acquire" by simp
    with Cons.prems(1) show False unfolding p by simp
  qed
  with k have ki: "k = i" by simp
  have tj: "events_of_thread j (p # rest) = events_of_thread j rest"
    unfolding p events_of_thread_Cons using kj by simp
  have ti: "e # events_of_thread i rest = mid @ [Lock_release]"
    using Cons.prems(4) unfolding p events_of_thread_Cons using ki by simp
  have all: "\<forall>p\<in>set rest. fst p = i \<or> fst p = j" using Cons.prems(3) by simp
  show ?case
  proof (cases mid)
    case Nil
    with ti have e: "e = Lock_release" and r: "events_of_thread i rest = []" by simp_all
    have "rest = map (Pair j) (events_of_thread j rest)"
      using only_other_thread[OF r all] .
    then show ?thesis unfolding tj unfolding p using ki e Nil by simp
  next
    case (Cons m mid')
    with ti have e: "e = m" and r: "events_of_thread i rest = mid' @ [Lock_release]" by simp_all
    from Cons.prems(5,6) Cons e have ne: "e \<noteq> Lock_acquire" "e \<noteq> Lock_release"
      and nm: "Lock_acquire \<notin> set mid'" "Lock_release \<notin> set mid'" by auto
    have lk: "lock_ok (Some i) rest"
      using Cons.prems(1) unfolding p using lock_ok_other[OF ne] by simp
    have "rest = map (Pair i) (mid' @ [Lock_release]) @ map (Pair j) (events_of_thread j rest)"
      using Cons.IH[OF lk Cons.prems(2) all r nm] Cons.prems(7) unfolding tj by simp
    then show ?thesis unfolding tj unfolding p using ki e Cons by simp
  qed
qed

lemma first_taker_runs_first:
  assumes "lock_ok None ((i, e) # rest)" and "i \<noteq> j"
    and "\<forall>p\<in>set rest. fst p = i \<or> fst p = j"
    and "events_of_thread i ((i, e) # rest) = Lock_acquire # mid @ [Lock_release]"
    and "Lock_acquire \<notin> set mid" and "Lock_release \<notin> set mid"
    and "events_of_thread j ((i, e) # rest) = Lock_acquire # midj @ [Lock_release]"
  shows "(i, e) # rest = map (Pair i) (Lock_acquire # mid @ [Lock_release])
                           @ map (Pair j) (Lock_acquire # midj @ [Lock_release])"
proof -
  from assms(4) have e: "e = Lock_acquire" and ti: "events_of_thread i rest = mid @ [Lock_release]"
    unfolding events_of_thread_Cons by simp_all
  from assms(7) have tj: "events_of_thread j rest = Lock_acquire # midj @ [Lock_release]"
    unfolding events_of_thread_Cons using assms(2) by simp
  from assms(1) have lk: "lock_ok (Some i) rest" unfolding e by simp
  have "rest = map (Pair i) (mid @ [Lock_release]) @ map (Pair j) (events_of_thread j rest)"
    using owner_runs_to_release[OF lk assms(2,3) ti assms(5,6)] tj by simp
  then show ?thesis unfolding tj e by simp
qed

lemma two_saves_serialized:
  assumes "lock_ok None sched" and "i \<noteq> j"
    and "\<forall>p\<in>set sched. fst p = i \<or> fst p = j"
    and "events_of_thread i sched = events_of (save_clip e1 self1 fs1)"
    and "events_of_thread j sched = events_of (save_clip e2 self2 fs2)"
  shows "sched = map (Pair i) (events_of (save_clip e1 self1 fs1))
                   @ map (Pair j) (events_of (save_clip e2 self2 fs2))
       \<or> sched = map (Pair j) (events_of (save_clip e2 self2 fs2))
                   @ map (Pair i) (events_of (save_clip e1 self1 fs1))"
proof -
  obtain m1 where t1: "events_of (save_clip e1 self1 fs1) = Lock_acquire # m1 @ [Lock_release]"
    and n1: "Lock_acquire \<notin> set m1" "Lock_release \<notin> set m1"
    using save_clip_trace[of e1 self1 fs1] by blast
  obtain m2 where t2: "events_of (save_clip e2 self2 fs2) = Lock_acquire # m2 @ [Lock_release]"
    and n2: "Lock_acquire \<notin> set m2" "Lock_release \<notin> set m2"
    using save_clip_trace[of e2 self2 fs2] by blast
  from assms(4) t1 have "sched \<noteq> []" by (auto simp: events_of_thread_def)
  then obtain k e rest where s: "sched = (k, e) # rest" by (cases sched) auto
  from assms(3) have all: "\<forall>p\<in>set rest. fst p = i \<or> fst p = j" and k: "k = i \<or> k = j"
    unfolding s by simp_all
  from k show ?thesis
  proof
    assume ki: "k = i"
    have "(i, e) # rest = map (Pair i) (Lock_acquire # m1 @ [Lock_release])
                           @ map (Pair j) (Lock_acquire # m2 @ [Lock_release])"
      using first_taker_runs_first[of i e rest j m1 m2] assms(1,2,4,5) all n1
      unfolding s ki t1 t2 by blast
    then show ?thesis unfolding s ki t1 t2 by blast
  next
    assume kj: "k = j"
    have all': "\<forall>p\<in>set rest. fst p = j \<or> fst p = i" using all by blast
    have "(j, e) # rest = map (Pair j) (Lock_acquire # m2 @ [Lock_release])
                           @ map (Pair i) (Lock_acquire # m1 @ [Lock_release])"
      using first_taker_runs_first[of j e rest i m2 m1] assms(1,2,4,5) all' n2
      unfolding s kj t1 t2 by blast
    then show ?thesis unfolding s kj t1 t2 by blast
  qed
qed

lemma working_run:
  "list_ex is_run (events_of (save_clip working_env example_clipper Map.empty))"
  by code_simp

text \<open>
  Claim C2, as the code has it. A save takes the lock first and releases it last, and
  nowhere in between: everything it does, writing the temporary files and running the
  encoder included, happens while it holds the lock. So in every schedule of two saves
  that respects the lock, one save runs from its first event to its last before the
  other starts.
\<close>

theorem lock_held_for_whole_save:
  "(\<exists>mid. events_of (save_clip e self fs) = Lock_acquire # mid @ [Lock_release]
          \<and> Lock_acquire \<notin> set mid \<and> Lock_release \<notin> set mid
          \<and> held_events False (events_of (save_clip e self fs)) = mid)
   \<and> (\<forall>c. Run c \<in> set (events_of (save_clip e self fs))
          \<longrightarrow> Run c \<in> set (held_events False (events_of (save_clip e self fs))))
   \<and> (\<forall>p. Write_file p \<in> set (events_of (save_clip e self fs))
          \<longrightarrow> Write_file p \<in> set (held_events False (events_of (save_clip e self fs))))
   \<and> (\<forall>sched i j e2 self2 fs2.
          lock_ok None sched \<and> i \<noteq> j \<and> (\<forall>p\<in>set sched. fst p = i \<or> fst p = j)
          \<and> events_of_thread i sched = events_of (save_clip e self fs)
          \<and> events_of_thread j sched = events_of (save_clip e2 self2 fs2)
          \<longrightarrow> sched = map (Pair i) (events_of (save_clip e self fs))
                         @ map (Pair j) (events_of (save_clip e2 self2 fs2))
              \<or> sched = map (Pair j) (events_of (save_clip e2 self2 fs2))
                         @ map (Pair i) (events_of (save_clip e self fs)))"
proof -
  obtain mid where t: "events_of (save_clip e self fs) = Lock_acquire # mid @ [Lock_release]"
    and n: "Lock_acquire \<notin> set mid" "Lock_release \<notin> set mid"
    using save_clip_trace[of e self fs] by blast
  have h: "held_events False (events_of (save_clip e self fs)) = mid"
    unfolding t using held_events_no_lock[OF n] by simp
  have 1: "\<exists>mid. events_of (save_clip e self fs) = Lock_acquire # mid @ [Lock_release]
          \<and> Lock_acquire \<notin> set mid \<and> Lock_release \<notin> set mid
          \<and> held_events False (events_of (save_clip e self fs)) = mid"
    using t n h by blast
  have 2: "\<forall>c. Run c \<in> set (events_of (save_clip e self fs))
          \<longrightarrow> Run c \<in> set (held_events False (events_of (save_clip e self fs)))"
    unfolding h unfolding t by simp
  have 3: "\<forall>p. Write_file p \<in> set (events_of (save_clip e self fs))
          \<longrightarrow> Write_file p \<in> set (held_events False (events_of (save_clip e self fs)))"
    unfolding h unfolding t by simp
  have 4: "\<forall>sched i j e2 self2 fs2.
          lock_ok None sched \<and> i \<noteq> j \<and> (\<forall>p\<in>set sched. fst p = i \<or> fst p = j)
          \<and> events_of_thread i sched = events_of (save_clip e self fs)
          \<and> events_of_thread j sched = events_of (save_clip e2 self2 fs2)
          \<longrightarrow> sched = map (Pair i) (events_of (save_clip e self fs))
                         @ map (Pair j) (events_of (save_clip e2 self2 fs2))
              \<or> sched = map (Pair j) (events_of (save_clip e2 self2 fs2))
                         @ map (Pair i) (events_of (save_clip e self fs))"
    using two_saves_serialized by blast
  from 1 2 3 4 show ?thesis by (intro conjI)
qed

theorem lock_held_for_whole_save_witness:
  "lock_ok None (map (Pair 1) (events_of (save_clip working_env example_clipper Map.empty))
                 @ map (Pair 2) (events_of (save_clip failing_env example_clipper Map.empty)))
   \<and> (1::nat) \<noteq> 2
   \<and> events_of_thread 1 (map (Pair 1) (events_of (save_clip working_env example_clipper Map.empty))
                 @ map (Pair 2) (events_of (save_clip failing_env example_clipper Map.empty)))
       = events_of (save_clip working_env example_clipper Map.empty)
   \<and> list_ex is_run (events_of (save_clip working_env example_clipper Map.empty))
   \<and> list_ex is_run (held_events False (events_of (save_clip working_env example_clipper Map.empty)))"
proof -
  let ?a = "events_of (save_clip working_env example_clipper Map.empty)"
  let ?b = "events_of (save_clip failing_env example_clipper Map.empty)"
  have l: "lock_ok None (map (Pair 1) ?a @ map (Pair 2) ?b)" by code_simp
  have t: "events_of_thread 1 (map (Pair 1) ?a @ map (Pair 2) ?b) = ?a" by code_simp
  from working_run obtain ev where ev: "ev \<in> set ?a" "is_run ev"
    unfolding list_ex_iff by blast
  from ev(2) obtain c where c: "ev = Run c" by (cases ev) (simp_all add: is_run_def)
  from lock_held_for_whole_save[of working_env example_clipper Map.empty] ev(1)
  have r: "Run c \<in> set (held_events False ?a)" unfolding c by blast
  have "is_run (Run c)" by (simp add: is_run_def)
  with r have "list_ex is_run (held_events False ?a)"
    unfolding list_ex_iff by blast
  with l t working_run show ?thesis by simp
qed

text \<open>
  A save with a frame in the buffer and a working encoder: the encoder runs while the
  lock is held, so the events under the lock are not only the copies of the buffers.
\<close>

theorem lock_scope_counterexample:
  "list_ex is_run (held_events False (events_of (save_clip working_env example_clipper Map.empty)))
   \<and> \<not> list_all is_copy_step
         (held_events False (events_of (save_clip working_env example_clipper Map.empty)))"
  by code_simp

end
